theory Spec2Isabelle
  imports Complex_Main "HOL-Library.Product_Lexorder"
begin

section \<open>Half-edge representation of an all-quad surface mesh\<close>

text \<open>
  Embedding of \<^verbatim>\<open>Mesh/meshQuadQuasiStructured.cpp\<close> (namespace QSQ).
  Indices are \<^verbatim>\<open>size_t\<close>; they are modelled as natural numbers, and the
  sentinel \<^verbatim>\<open>NO_ID = numeric_limits<size_t>::max()\<close> is the 64-bit value.
  A \<^verbatim>\<open>MVertex*\<close> is modelled by a natural number (its address), a
  \<^verbatim>\<open>MQuadrangle\<close> by the four vertex pointers \<^verbatim>\<open>getVertex(0..3)\<close> returns.
  Vertex coordinates and the \<^verbatim>\<open>ptr\<close> back-pointer of a face take no part in
  the combinatorics and are left out.
\<close>

definition NO_ID :: nat where
  "NO_ID = 18446744073709551615"

record HalfEdge =
  h_prev :: nat
  h_next :: nat
  h_opposite :: nat
  h_vertex :: nat
  h_face :: nat

record Vertex =
  v_he :: nat
  v_isSingularity :: bool
  v_ptr :: nat

record Face =
  f_he :: nat

record MeshHalfEdges =
  vertices :: "Vertex list"
  hedges :: "HalfEdge list"
  faces :: "Face list"

definition "next" :: "MeshHalfEdges \<Rightarrow> nat \<Rightarrow> nat" where
  "next M he = h_next (hedges M ! he)"

definition opposite :: "MeshHalfEdges \<Rightarrow> nat \<Rightarrow> nat" where
  "opposite M he = h_opposite (hedges M ! he)"

definition prev :: "MeshHalfEdges \<Rightarrow> nat \<Rightarrow> nat" where
  "prev M he = h_prev (hedges M ! he)"

definition vertex :: "MeshHalfEdges \<Rightarrow> nat \<Rightarrow> nat \<Rightarrow> nat" where
  "vertex M he lv = (if lv = 0 then h_vertex (hedges M ! prev M he) else h_vertex (hedges M ! he))"

text \<open>
  The outcome of a call: it returns a value, it calls \<^verbatim>\<open>abort()\<close>, it runs
  into undefined behaviour (erasing \<^verbatim>\<open>end()\<close>, writing outside of an array), one
  of its do-while loops never leaves, or, in \<^verbatim>\<open>valenceInsideQuads\<close>, it calls
  \<^verbatim>\<open>GeoLog::flush()\<close>, enters the event loop of the user interface
  \<^verbatim>\<open>gmsh::fltk::run()\<close> and calls \<^verbatim>\<open>abort()\<close> when that loop returns.
\<close>

datatype 'a exec = Returns 'a | Aborts | Undefined | Diverges | Gui_aborts

subsection \<open>Walking around a vertex\<close>

text \<open>
  First loop of \<^verbatim>\<open>vertexFaceValence\<close>: turn around the vertex by
  \<^verbatim>\<open>opposite(next(he))\<close> until the start is met again or a boundary is hit.
  The result is the valence counted so far and \<^verbatim>\<open>he_bdr\<close>.
\<close>

partial_function (option) vfv_turn :: "MeshHalfEdges \<Rightarrow> nat \<Rightarrow> nat \<Rightarrow> int \<Rightarrow> (int \<times> nat) option" where
  "vfv_turn M h0 he valence =
     (if opposite M (next M he) = NO_ID then Some (valence, next M he)
      else if opposite M (next M he) \<noteq> h0
        then vfv_turn M h0 (opposite M (next M he)) (valence + 1)
        else Some (valence + 1, NO_ID))"

text \<open>Second loop of \<^verbatim>\<open>vertexFaceValence\<close>, started at \<^verbatim>\<open>he_bdr\<close>.\<close>

partial_function (option) vfv_unroll :: "MeshHalfEdges \<Rightarrow> nat \<Rightarrow> nat \<Rightarrow> int \<Rightarrow> int option" where
  "vfv_unroll M h0 he valence =
     (if opposite M (next M he) \<noteq> h0 \<and> opposite M (next M he) \<noteq> NO_ID
        then vfv_unroll M h0 (opposite M (next M he)) (valence + 1)
        else Some (valence + 1))"

definition vertexFaceValence :: "MeshHalfEdges \<Rightarrow> nat \<Rightarrow> (int \<times> bool) exec" where
  "vertexFaceValence M v =
     (let he = v_he (vertices M ! v) in
      if he = NO_ID then Returns (0, False)
      else case vfv_turn M he he 0 of
        None \<Rightarrow> Diverges
      | Some (valence, he_bdr) \<Rightarrow>
          if he_bdr = NO_ID then Returns (valence, False)
          else (case vfv_unroll M he he_bdr 0 of
                  None \<Rightarrow> Diverges
                | Some valence2 \<Rightarrow> Returns (valence2, True)))"

subsection \<open>Building the structure from the quads of a face\<close>

type_synonym MQuadrangle = "nat \<times> nat \<times> nat \<times> nat"

fun getVertex :: "MQuadrangle \<Rightarrow> nat \<Rightarrow> nat" where
  "getVertex (a, b, c, d) le = (if le = 0 then a else if le = 1 then b else if le = 2 then c else d)"

text \<open>Body of the loop "create vertices if necessary" for one corner.\<close>

definition find_or_add :: "Vertex list \<times> (nat \<rightharpoonup> nat) \<Rightarrow> nat \<Rightarrow> nat \<times> Vertex list \<times> (nat \<rightharpoonup> nat)" where
  "find_or_add s v1 =
     (let vs = fst s; mv2new = snd s;
          nv = (case mv2new v1 of Some n \<Rightarrow> n | None \<Rightarrow> NO_ID) in
      if nv = NO_ID
      then (length vs,
            vs @ [\<lparr>v_he = NO_ID, v_isSingularity = False, v_ptr = v1\<rparr>],
            mv2new(v1 \<mapsto> length vs))
      else (nv, vs, mv2new))"

definition new_hedge :: "nat list \<Rightarrow> nat \<Rightarrow> nat \<Rightarrow> nat \<Rightarrow> HalfEdge" where
  "new_hedge quad faceNo he0 k =
     \<lparr>h_prev = (if k \<noteq> 0 then he0 + k - 1 else he0 + 3),
      h_next = (if k \<noteq> 3 then he0 + k + 1 else he0),
      h_opposite = NO_ID,
      h_vertex = quad ! ((1 + k) mod 4),
      h_face = faceNo\<rparr>"

definition set_vertex_he :: "nat list \<Rightarrow> nat \<Rightarrow> nat \<Rightarrow> Vertex list \<Rightarrow> Vertex list" where
  "set_vertex_he quad he0 k vs =
     (let w = quad ! ((1 + k) mod 4) in
      if v_he (vs ! w) = NO_ID then vs[w := (vs ! w)\<lparr>v_he := he0 + k\<rparr>] else vs)"

text \<open>Body of the loop over \<^verbatim>\<open>gf->quadrangles\<close>.\<close>

definition add_quad :: "MQuadrangle \<Rightarrow> MeshHalfEdges \<times> (nat \<rightharpoonup> nat) \<Rightarrow> MeshHalfEdges \<times> (nat \<rightharpoonup> nat)" where
  "add_quad q s =
     (let M = fst s;
          (n0, s0) = find_or_add (vertices M, snd s) (getVertex q 0);
          (n1, s1) = find_or_add s0 (getVertex q 1);
          (n2, s2) = find_or_add s1 (getVertex q 2);
          (n3, s3) = find_or_add s2 (getVertex q 3);
          quad = [n0, n1, n2, n3];
          faceNo = length (faces M);
          he0 = length (hedges M)
      in (\<lparr>vertices = fold (set_vertex_he quad he0) [0..<4] (fst s3),
           hedges = hedges M @ map (new_hedge quad faceNo he0) [0..<4],
           faces = faces M @ [\<lparr>f_he = he0\<rparr>]\<rparr>,
          snd s3))"

text \<open>
  \<^verbatim>\<open>sort_unique_with_perm\<close>. \<^verbatim>\<open>std::sort\<close> on \<^verbatim>\<open>ids\<close> leaves the order of
  equal keys open; the groups, and so \<^verbatim>\<open>old2new\<close>, do not depend on it, and the
  model sorts stably. \<^verbatim>\<open>std::array\<close> compares lexicographically.
\<close>

function sup_inner :: "'a list \<Rightarrow> nat list \<Rightarrow> nat \<Rightarrow> nat \<Rightarrow> nat \<Rightarrow> nat list \<Rightarrow> nat \<times> nat list" where
  "sup_inner inp ids ir ic cur_rep old2new =
     (if ic < length inp \<and> inp ! (ids ! ic) = inp ! (ids ! ir)
      then sup_inner inp ids ir (ic + 1) cur_rep (old2new[ids ! ic := cur_rep])
      else (ic, old2new))"
  by pat_completeness auto
termination
  by (relation "measure (\<lambda>(inp, ids, ir, ic, cur_rep, old2new). length inp - ic)") auto

declare sup_inner.simps [simp del]

function sup_outer :: "'a list \<Rightarrow> nat list \<Rightarrow> nat \<Rightarrow> nat \<Rightarrow> nat list \<Rightarrow> nat list" where
  "sup_outer inp ids ir cur_rep old2new =
     (if ir < length inp
      then sup_outer inp ids (fst (sup_inner inp ids ir ir cur_rep old2new)) (cur_rep + 1)
                     (snd (sup_inner inp ids ir ir cur_rep old2new))
      else old2new)"
  by pat_completeness auto
termination
proof (relation "measure (\<lambda>(inp, ids, ir, cur_rep, old2new). length inp - ir)")
  show "wf (measure (\<lambda>(inp, ids, ir, cur_rep, old2new). length inp - ir))"
    by simp
next
  fix inp :: "'a list" and ids ir cur_rep old2new
  assume lt: "ir < length inp"
  have mono: "ic \<le> fst (sup_inner inp ids ir ic cur_rep o2n)" for ic o2n
  proof (induction inp ids ir ic cur_rep o2n rule: sup_inner.induct)
    case (1 inp ids ir ic cur_rep o2n)
    show ?case
    proof (cases "ic < length inp \<and> inp ! (ids ! ic) = inp ! (ids ! ir)")
      case True
      with "1" have "ic + 1 \<le> fst (sup_inner inp ids ir (ic + 1) cur_rep (o2n[ids ! ic := cur_rep]))"
        by simp
      with True show ?thesis by (subst sup_inner.simps) simp
    next
      case False
      then show ?thesis by (subst sup_inner.simps) auto
    qed
  qed
  have "sup_inner inp ids ir ir cur_rep old2new
          = sup_inner inp ids ir (ir + 1) cur_rep (old2new[ids ! ir := cur_rep])"
    using lt by (subst sup_inner.simps) simp
  moreover have "ir + 1 \<le> fst (sup_inner inp ids ir (ir + 1) cur_rep (old2new[ids ! ir := cur_rep]))"
    by (rule mono)
  ultimately have "ir < fst (sup_inner inp ids ir ir cur_rep old2new)"
    by simp
  with lt show "((inp, ids, fst (sup_inner inp ids ir ir cur_rep old2new), cur_rep + 1,
               snd (sup_inner inp ids ir ir cur_rep old2new)),
              (inp, ids, ir, cur_rep, old2new))
             \<in> measure (\<lambda>(inp, ids, ir, cur_rep, old2new). length inp - ir)"
    by simp
qed

declare sup_outer.simps [simp del]

definition sort_unique_with_perm :: "('a::linorder) list \<Rightarrow> 'a list \<times> nat list" where
  "sort_unique_with_perm inp =
     (let ids = sort_key (\<lambda>k. inp ! k) [0..<length inp];
          uniques = remdups_adj (sort inp);
          old2new = sup_outer inp ids 0 0 (replicate (length inp) 0)
      in (uniques, old2new))"

text \<open>
  The loop filling \<^verbatim>\<open>new2old\<close>; \<^verbatim>\<open>None\<close> is the early \<^verbatim>\<open>return -1\<close>
  (index out of range, or a third half-edge on the same vertex pair).
\<close>

fun fill_new2old :: "nat list \<Rightarrow> nat list \<Rightarrow> (nat \<times> nat) list \<Rightarrow> (nat \<times> nat) list option" where
  "fill_new2old old2new [] new2old = Some new2old"
| "fill_new2old old2new (i # is) new2old =
     (let ni = old2new ! i in
      if ni \<ge> length new2old then None
      else if fst (new2old ! ni) = NO_ID
        then fill_new2old old2new is (new2old[ni := (i, snd (new2old ! ni))])
      else if snd (new2old ! ni) = NO_ID
        then fill_new2old old2new is (new2old[ni := (fst (new2old ! ni), i)])
      else None)"

definition set_opposites :: "(nat \<times> nat) \<Rightarrow> HalfEdge list \<Rightarrow> HalfEdge list" where
  "set_opposites p hs =
     (let h1 = fst p; h2 = snd p in
      if h1 \<noteq> NO_ID \<and> h2 \<noteq> NO_ID
      then (let hs1 = hs[h1 := (hs ! h1)\<lparr>h_opposite := h2\<rparr>]
            in hs1[h2 := (hs1 ! h2)\<lparr>h_opposite := h1\<rparr>])
      else hs)"

definition vPair :: "HalfEdge list \<Rightarrow> nat \<Rightarrow> nat \<times> nat" where
  "vPair hs i =
     (let v1 = h_vertex (hs ! h_prev (hs ! i)); v2 = h_vertex (hs ! i) in
      if v1 > v2 then (v2, v1) else (v1, v2))"

definition flag_singular :: "(nat \<rightharpoonup> nat) \<Rightarrow> nat \<Rightarrow> Vertex list \<Rightarrow> Vertex list" where
  "flag_singular mv2new mv vs =
     (case mv2new mv of
        None \<Rightarrow> vs
      | Some n \<Rightarrow> vs[n := (vs ! n)\<lparr>v_isSingularity := True\<rparr>])"

definition createMeshHalfEdges :: "MQuadrangle list \<Rightarrow> nat list \<Rightarrow> int \<times> MeshHalfEdges" where
  "createMeshHalfEdges quadrangles singularVertices =
     (let (M, mv2new) = fold add_quad quadrangles
                          (\<lparr>vertices = [], hedges = [], faces = []\<rparr>, Map.empty);
          vPairs = map (vPair (hedges M)) [0..<length (hedges M)];
          (uniques, old2new) = sort_unique_with_perm vPairs
      in case fill_new2old old2new [0..<length (hedges M)]
                (replicate (length uniques) (NO_ID, NO_ID)) of
           None \<Rightarrow> (- 1, M)
         | Some new2old \<Rightarrow>
             (0, M\<lparr>hedges := fold set_opposites new2old (hedges M),
                   vertices := fold (flag_singular mv2new) singularVertices (vertices M)\<rparr>))"


subsection \<open>Faces around a vertex, half-edges around a face\<close>

text \<open>
  \<^verbatim>\<open>vertexFaces\<close> (both overloads run the same two loops). The first loop
  collects the faces met while turning by \<^verbatim>\<open>opposite(next(he))\<close>; at a boundary
  the collection restarts and the second loop turns by \<^verbatim>\<open>opposite(prev(he))\<close>.
\<close>

partial_function (option) vf_turn :: "MeshHalfEdges \<Rightarrow> nat \<Rightarrow> nat \<Rightarrow> nat list \<Rightarrow> (nat list \<times> nat) option" where
  "vf_turn M h0 he fs =
     (if opposite M (next M he) = NO_ID then Some (fs, next M he)
      else if opposite M (next M he) \<noteq> h0
        then vf_turn M h0 (opposite M (next M he))
               (fs @ [h_face (hedges M ! opposite M (next M he))])
        else Some (fs @ [h_face (hedges M ! opposite M (next M he))], NO_ID))"

partial_function (option) vf_unroll :: "MeshHalfEdges \<Rightarrow> nat \<Rightarrow> nat \<Rightarrow> nat list \<Rightarrow> nat list option" where
  "vf_unroll M h0 he fs =
     (if opposite M (prev M he) \<noteq> h0 \<and> opposite M (prev M he) \<noteq> NO_ID
        then vf_unroll M h0 (opposite M (prev M he)) (fs @ [h_face (hedges M ! he)])
        else Some (fs @ [h_face (hedges M ! he)]))"

definition vertexFaces :: "MeshHalfEdges \<Rightarrow> nat \<Rightarrow> (int \<times> nat list) exec" where
  "vertexFaces M v =
     (let he = v_he (vertices M ! v) in
      case vf_turn M he he [] of
        None \<Rightarrow> Diverges
      | Some (fs, he_bdr) \<Rightarrow>
          if he_bdr = NO_ID then Returns (int (length fs), fs)
          else (case vf_unroll M he he_bdr [] of
                  None \<Rightarrow> Diverges
                | Some fs2 \<Rightarrow> Returns (int (length fs2), fs2)))"

text \<open>
  The half-edges visited by
  \<^verbatim>\<open>he = faces[f].he; do { ...; he = next(he); } while (he != faces[f].he)\<close>.
\<close>

partial_function (option) face_hes :: "MeshHalfEdges \<Rightarrow> nat \<Rightarrow> nat \<Rightarrow> nat list \<Rightarrow> nat list option" where
  "face_hes M h0 he acc =
     (if next M he \<noteq> h0 then face_hes M h0 (next M he) (acc @ [he])
      else Some (acc @ [he]))"

definition face_loop :: "MeshHalfEdges \<Rightarrow> nat \<Rightarrow> nat list option" where
  "face_loop M f = face_hes M (f_he (faces M ! f)) (f_he (faces M ! f)) []"

subsection \<open>Helpers of the cavity\<close>

definition BSIZE :: nat where
  "BSIZE = 24"

text \<open>
  The overload of \<^verbatim>\<open>vertexFaces\<close> that fills an array of the caller ("enough
  memory must be available"): the same two loops as the overload with a vector, each
  writing \<^verbatim>\<open>faces[valence]\<close> with no test of the index. \<open>cap\<close> is the number of
  entries of the array: a loop that visits more than \<open>cap\<close> faces, and so a loop
  that never ends, has written outside of the array. The result is the returned valence
  and the entries of the array below it.
\<close>

definition vertexFaces_array :: "MeshHalfEdges \<Rightarrow> nat \<Rightarrow> nat \<Rightarrow> (int \<times> nat list) exec" where
  "vertexFaces_array M cap v =
     (let he = v_he (vertices M ! v) in
      case vf_turn M he he [] of
        None \<Rightarrow> Undefined
      | Some (fs, he_bdr) \<Rightarrow>
          if cap < length fs then Undefined
          else if he_bdr = NO_ID then Returns (int (length fs), fs)
          else (case vf_unroll M he he_bdr [] of
                  None \<Rightarrow> Undefined
                | Some fs2 \<Rightarrow>
                    if cap < length fs2 then Undefined
                    else Returns (int (length fs2), fs2)))"

text \<open>
  \<^verbatim>\<open>valenceInsideQuads\<close> and \<^verbatim>\<open>valenceOutsideQuads\<close>. The faces are written
  to a stack array of \<^verbatim>\<open>BSIZE\<close> entries before the valence is compared with
  \<^verbatim>\<open>BSIZE\<close>. When the valence is not below \<^verbatim>\<open>BSIZE\<close>,
  \<^verbatim>\<open>valenceOutsideQuads\<close> calls \<^verbatim>\<open>abort()\<close>, and \<^verbatim>\<open>valenceInsideQuads\<close>
  calls \<^verbatim>\<open>GeoLog::flush()\<close> and \<^verbatim>\<open>gmsh::fltk::run()\<close> before \<^verbatim>\<open>abort()\<close>.
\<close>

definition valenceInsideQuads :: "MeshHalfEdges \<Rightarrow> nat set \<Rightarrow> nat \<Rightarrow> int exec" where
  "valenceInsideQuads M quads v =
     (case vertexFaces_array M BSIZE v of
        Returns (val, fs) \<Rightarrow>
          if nat val \<ge> BSIZE then Gui_aborts
          else Returns (int (length (filter (\<lambda>f. f \<in> quads) (take (nat val) fs))))
      | Aborts \<Rightarrow> Aborts
      | Undefined \<Rightarrow> Undefined
      | Diverges \<Rightarrow> Diverges
      | Gui_aborts \<Rightarrow> Gui_aborts)"

definition valenceOutsideQuads :: "MeshHalfEdges \<Rightarrow> nat set \<Rightarrow> nat \<Rightarrow> int exec" where
  "valenceOutsideQuads M quads v =
     (case vertexFaces_array M BSIZE v of
        Returns (val, fs) \<Rightarrow>
          if nat val \<ge> BSIZE then Aborts
          else Returns (int (length (filter (\<lambda>f. f \<notin> quads) (take (nat val) fs))))
      | Aborts \<Rightarrow> Aborts
      | Undefined \<Rightarrow> Undefined
      | Diverges \<Rightarrow> Diverges
      | Gui_aborts \<Rightarrow> Gui_aborts)"



text \<open>
  \<^verbatim>\<open>orderedHalfEdgesFromStack\<close>: only the first element of the stack starts a
  loop (the \<^verbatim>\<open>for\<close> ends with \<^verbatim>\<open>break\<close>). The result is the returned flag and
  the contents of \<^verbatim>\<open>orderedHes\<close>.
\<close>

partial_function (option) ohs_loop :: "MeshHalfEdges \<Rightarrow> nat list \<Rightarrow> nat \<Rightarrow> nat \<Rightarrow> nat list \<Rightarrow> (bool \<times> nat list) option" where
  "ohs_loop M hes_stack he0 he orderedHes =
     (if find (\<lambda>he2. he2 \<noteq> he \<and> vertex M he2 0 = vertex M he 1) hes_stack = None
        then Some (False, orderedHes @ [he])
      else if the (find (\<lambda>he2. he2 \<noteq> he \<and> vertex M he2 0 = vertex M he 1) hes_stack) \<noteq> he0
        then ohs_loop M hes_stack he0
               (the (find (\<lambda>he2. he2 \<noteq> he \<and> vertex M he2 0 = vertex M he 1) hes_stack))
               (orderedHes @ [he])
      else Some (True, orderedHes @ [he]))"

definition orderedHalfEdgesFromStack :: "MeshHalfEdges \<Rightarrow> nat list \<Rightarrow> (bool \<times> nat list) exec" where
  "orderedHalfEdgesFromStack M hes_stack =
     (if length hes_stack < 3 then Returns (False, [])
      else case ohs_loop M hes_stack (hd hes_stack) (hd hes_stack) [] of
             None \<Rightarrow> Diverges
           | Some r \<Rightarrow> Returns r)"


section \<open>Cavities\<close>

record FlipInfo =
  fi_he :: nat
  fi_nq :: nat
  fi_nvs :: "nat list"

record FCavity =
  hes :: "nat list"
  side :: "nat list"
  quads :: "nat set"

definition bind_exec :: "'a exec \<Rightarrow> ('a \<Rightarrow> 'b exec) \<Rightarrow> 'b exec" where
  "bind_exec x f =
     (case x of Returns a \<Rightarrow> f a | Aborts \<Rightarrow> Aborts | Undefined \<Rightarrow> Undefined
      | Diverges \<Rightarrow> Diverges | Gui_aborts \<Rightarrow> Gui_aborts)"

text \<open>\<^verbatim>\<open>hes.erase(std::find(hes.begin(), hes.end(), x))\<close>; erasing \<^verbatim>\<open>end()\<close> is undefined.\<close>

definition erase_find :: "nat \<Rightarrow> nat list \<Rightarrow> nat list exec" where
  "erase_find x xs = (if x \<in> set xs then Returns (remove1 x xs) else Undefined)"

subsection \<open>updateSides\<close>





subsection \<open>init\<close>



subsection \<open>growByFlip\<close>

definition isSing :: "MeshHalfEdges \<Rightarrow> nat \<Rightarrow> bool" where
  "isSing M v = v_isSingularity (vertices M ! v)"

definition no_nvs :: "nat list" where
  "no_nvs = [NO_ID, NO_ID, NO_ID, NO_ID]"

definition flip_done :: "FCavity \<Rightarrow> FlipInfo \<Rightarrow> nat list \<Rightarrow> (bool \<times> FCavity \<times> FlipInfo) exec" where
  "flip_done cav info hs = Returns (True, cav\<lparr>hes := hs, quads := insert (fi_nq info) (quads cav)\<rparr>, info)"

definition flip_rejected :: "FCavity \<Rightarrow> FlipInfo \<Rightarrow> (bool \<times> FCavity \<times> FlipInfo) exec" where
  "flip_rejected cav info = Returns (False, cav, info)"

text \<open>Branches "minus two vertices on the bdr".\<close>

definition flip_m2v :: "MeshHalfEdges \<Rightarrow> FCavity \<Rightarrow> FlipInfo \<Rightarrow> bool \<Rightarrow> nat \<Rightarrow> nat \<Rightarrow> nat \<Rightarrow> nat \<Rightarrow> nat \<Rightarrow> nat
    \<Rightarrow> (bool \<times> FCavity \<times> FlipInfo) exec" where
  "flip_m2v M cav info rejectNewSings nv1 nv2 pos heNew e1 e2 =
     (if rejectNewSings \<and> (isSing M nv1 \<or> isSing M nv2) then flip_rejected cav info
      else bind_exec (erase_find e1 ((hes cav)[pos := heNew])) (\<lambda>hs1.
           bind_exec (erase_find e2 hs1) (\<lambda>hs2.
           flip_done cav (info\<lparr>fi_nvs := no_nvs\<rparr>) hs2)))"

text \<open>Branch "closing hole".\<close>

definition flip_close :: "MeshHalfEdges \<Rightarrow> FCavity \<Rightarrow> FlipInfo \<Rightarrow> bool \<Rightarrow> nat \<Rightarrow> nat \<Rightarrow> nat \<Rightarrow> nat \<Rightarrow> nat
    \<Rightarrow> (bool \<times> FCavity \<times> FlipInfo) exec" where
  "flip_close M cav info rejectNewSings he0 he0_op he1_op he2_op he3_op =
     (let nv0 = h_vertex (hedges M ! he0);
          nv1 = h_vertex (hedges M ! he0);
          nv2 = h_vertex (hedges M ! he0);
          nv3 = h_vertex (hedges M ! he0) in
      if rejectNewSings \<and> (isSing M nv0 \<or> isSing M nv1 \<or> isSing M nv2 \<or> isSing M nv3)
      then flip_rejected cav info
      else bind_exec (erase_find he0_op (hes cav)) (\<lambda>hs0.
           bind_exec (erase_find he1_op hs0) (\<lambda>hs1.
           bind_exec (erase_find he2_op hs1) (\<lambda>hs2.
           bind_exec (erase_find he3_op hs2) (\<lambda>hs3.
           bind_exec (orderedHalfEdgesFromStack M hs3) (\<lambda>r.
             if \<not> fst r
             then Returns (False, cav\<lparr>hes := snd r\<rparr>,
                           info\<lparr>fi_nvs := [nv0, nv1, nv2, nv3], fi_nq := NO_ID\<rparr>)
             else flip_done cav (info\<lparr>fi_nvs := [nv0, nv1, nv2, nv3]\<rparr>) (snd r)))))))"

text \<open>Branches "same number of vertices on the bdr".\<close>

definition flip_1v :: "MeshHalfEdges \<Rightarrow> FCavity \<Rightarrow> FlipInfo \<Rightarrow> bool \<Rightarrow> nat \<Rightarrow> nat \<Rightarrow> nat list
    \<Rightarrow> (bool \<times> FCavity \<times> FlipInfo) exec" where
  "flip_1v M cav info rejectNewSings nv nvIn hsNew =
     bind_exec (valenceInsideQuads M (quads cav) nv) (\<lambda>val.
       if val > 0 then flip_rejected cav (info\<lparr>fi_nq := NO_ID\<rparr>)
       else if rejectNewSings \<and> isSing M nvIn then flip_rejected cav (info\<lparr>fi_nq := NO_ID\<rparr>)
       else flip_done cav (info\<lparr>fi_nvs := no_nvs\<rparr>) hsNew)"

text \<open>Branch "two additional vertices on the bdr".\<close>

definition concave_at_sing :: "MeshHalfEdges \<Rightarrow> FCavity \<Rightarrow> nat \<Rightarrow> bool exec" where
  "concave_at_sing M cav v =
     (if isSing M v
      then bind_exec (valenceOutsideQuads M (quads cav) v) (\<lambda>val. Returns (val = 2))
      else Returns False)"

definition flip_p2v :: "MeshHalfEdges \<Rightarrow> FCavity \<Rightarrow> FlipInfo \<Rightarrow> bool \<Rightarrow> nat \<Rightarrow> nat \<Rightarrow> nat \<Rightarrow> nat \<Rightarrow> nat
    \<Rightarrow> (bool \<times> FCavity \<times> FlipInfo) exec" where
  "flip_p2v M cav info rejectNewSings i he0 he1 he2 he3 =
     bind_exec (valenceInsideQuads M (quads cav) (h_vertex (hedges M ! he1))) (\<lambda>val1.
       if val1 > 0 then flip_rejected cav (info\<lparr>fi_nq := NO_ID\<rparr>)
       else bind_exec (valenceInsideQuads M (quads cav) (h_vertex (hedges M ! he2))) (\<lambda>val2.
         if val2 > 0 then flip_rejected cav (info\<lparr>fi_nq := NO_ID\<rparr>)
         else bind_exec (if rejectNewSings then concave_at_sing M cav (vertex M he0 0)
                         else Returns False) (\<lambda>c0.
           if c0 then flip_rejected cav info
           else bind_exec (if rejectNewSings then concave_at_sing M cav (vertex M he0 1)
                           else Returns False) (\<lambda>c1.
             if c1 then flip_rejected cav info
             else flip_done cav info
                    (take (i + 1) ((hes cav)[i := he1]) @ [he2, he3]
                     @ drop (i + 1) ((hes cav)[i := he1]))))))"


text \<open>
  \<^verbatim>\<open>FCavity::growByFlip\<close>. The result is the returned flag, the cavity and
  \<^verbatim>\<open>info\<close> after the call.
\<close>

definition quad_in :: "MeshHalfEdges \<Rightarrow> FCavity \<Rightarrow> nat \<Rightarrow> bool" where
  "quad_in M cav he_op =
     (let q = (if he_op \<noteq> NO_ID then h_face (hedges M ! he_op) else NO_ID)
      in q \<noteq> NO_ID \<and> q \<in> quads cav)"

definition growByFlip :: "MeshHalfEdges \<Rightarrow> FCavity \<Rightarrow> nat \<Rightarrow> FlipInfo \<Rightarrow> bool \<Rightarrow> (bool \<times> FCavity \<times> FlipInfo) exec" where
  "growByFlip M cav i info0 rejectNewSings =
     (if i \<ge> length (hes cav) then flip_rejected cav (info0\<lparr>fi_nq := NO_ID\<rparr>)
      else
       (let n = length (hes cav);
            he0_op = hes cav ! i;
            he0 = opposite M he0_op in
        if he0 = NO_ID then flip_rejected cav (info0\<lparr>fi_nq := NO_ID\<rparr>)
        else
         (let info = info0\<lparr>fi_he := he0_op, fi_nq := h_face (hedges M ! he0)\<rparr>;
              he1 = h_next (hedges M ! he0);
              he2 = h_next (hedges M ! he1);
              he3 = h_next (hedges M ! he2);
              he1_op = h_opposite (hedges M ! he1);
              he2_op = h_opposite (hedges M ! he2);
              he3_op = h_opposite (hedges M ! he3);
              q1in = quad_in M cav he1_op;
              q2in = quad_in M cav he2_op;
              q3in = quad_in M cav he3_op in
          if q1in \<and> q2in \<and> \<not> q3in then
            flip_m2v M cav info rejectNewSings (vertex M he1 0) (vertex M he1 1)
              ((i + n - 2) mod n) he3 he0_op he1_op
          else if q1in \<and> \<not> q2in \<and> q3in then
            flip_m2v M cav info rejectNewSings (vertex M he0_op 0) (vertex M he0_op 1)
              ((i + n - 1) mod n) he2 he0_op he3_op
          else if \<not> q1in \<and> q2in \<and> q3in then
            flip_m2v M cav info rejectNewSings (vertex M he3 0) (vertex M he3 1)
              i he1 he2_op he3_op
          else if q1in \<and> q2in \<and> q3in then
            flip_close M cav info rejectNewSings he0 he0_op he1_op he2_op he3_op
          else if q1in \<and> \<not> q2in \<and> \<not> q3in then
            flip_1v M cav info rejectNewSings (h_vertex (hedges M ! he2)) (h_vertex (hedges M ! he0))
              ((hes cav)[(i + n - 1) mod n := he2, i := he3])
          else if \<not> q1in \<and> \<not> q2in \<and> q3in then
            flip_1v M cav info rejectNewSings (h_vertex (hedges M ! he1)) (h_vertex (hedges M ! he0_op))
              ((hes cav)[i := he1, (i + 1) mod n := he2])
          else if \<not> q1in \<and> \<not> q2in \<and> \<not> q3in then
            flip_p2v M cav info rejectNewSings i he0 he1 he2 he3
          else flip_rejected cav (info\<lparr>fi_nq := NO_ID\<rparr>))))"

section \<open>Gardener\<close>

text \<open>
  The controller of the growth of a cavity. The pointer \<^verbatim>\<open>current\<close> is not
  stored: the cavity is passed to each operation. \<^verbatim>\<open>lastIrregularity\<close> (a
  \<^verbatim>\<open>double\<close> that \<^verbatim>\<open>setCavity\<close> and \<^verbatim>\<open>markNewQuad\<close> leave alone) is left out.
\<close>

record Gardener =
  valence :: "int list"
  vOnBoundary :: "bool list"
  valenceInCavity :: "int list"
  cavityTargetNbOfSides :: int
  sings :: "nat set"
  singsBdr :: "nat set"
  irregular :: "nat set"
  lastCav :: FCavity
  lastNbIrregular :: nat




text \<open>Body of the do-while loop of \<^verbatim>\<open>setCavity\<close>, for one half-edge.\<close>

definition sc_he :: "MeshHalfEdges \<Rightarrow> nat \<Rightarrow> Gardener \<times> nat list \<Rightarrow> Gardener \<times> nat list" where
  "sc_he M he st =
     (let G = fst st; asings = snd st;
          v2 = h_vertex (hedges M ! he);
          G1 = G\<lparr>valenceInCavity := (valenceInCavity G)[v2 := valenceInCavity G ! v2 + 1]\<rparr> in
      if isSing M v2 then (G1, asings @ [v2])
      else if vOnBoundary G ! v2 \<and> valence G ! v2 \<noteq> 2 then (G1\<lparr>irregular := insert v2 (irregular G1)\<rparr>, asings)
      else if \<not> vOnBoundary G ! v2 \<and> valence G ! v2 \<noteq> 4 then (G1\<lparr>irregular := insert v2 (irregular G1)\<rparr>, asings)
      else (G1, asings))"

fun sc_faces :: "MeshHalfEdges \<Rightarrow> nat list \<Rightarrow> Gardener \<times> nat list \<Rightarrow> (Gardener \<times> nat list) option" where
  "sc_faces M [] st = Some st"
| "sc_faces M (f # fs) st =
     (case face_loop M f of
        None \<Rightarrow> None
      | Some hs \<Rightarrow> sc_faces M fs (fold (sc_he M) hs st))"

definition target_sides :: "nat \<Rightarrow> int" where
  "target_sides nquads =
     (if nquads = 3 then 3
      else if nquads = 4 \<or> nquads = 1 then 4
      else if nquads = 5 then 5
      else 0)"

definition sc_sing :: "nat \<Rightarrow> Gardener \<Rightarrow> Gardener" where
  "sc_sing v G =
     (if valenceInCavity G ! v = valence G ! v then G\<lparr>sings := insert v (sings G)\<rparr>
      else G\<lparr>singsBdr := insert v (singsBdr G)\<rparr>)"

text \<open>
  \<^verbatim>\<open>Gardener::setCavity\<close>. The quads of the cavity are an unordered set; the model
  visits them in increasing order (the result does not depend on the order).
\<close>

definition setCavity :: "MeshHalfEdges \<Rightarrow> Gardener \<Rightarrow> FCavity \<Rightarrow> (bool \<times> Gardener) exec" where
  "setCavity M G cav =
     (if card (quads cav) = 0 \<or> length (hes cav) = 0 then Returns (False, G)
      else
       (let G0 = G\<lparr>valenceInCavity := replicate (length (valenceInCavity G)) 0,
                   sings := {}, irregular := {}, singsBdr := {},
                   cavityTargetNbOfSides := 0, lastNbIrregular := 0,
                   lastCav := \<lparr>hes = [], side = [], quads = {}\<rparr>\<rparr> in
        case sc_faces M (sorted_list_of_set (quads cav)) (G0, []) of
          None \<Rightarrow> Diverges
        | Some st \<Rightarrow>
            (let G1 = (fst st)\<lparr>cavityTargetNbOfSides := target_sides (card (quads cav))\<rparr>
             in Returns (True, fold sc_sing (remdups_adj (sort (snd st))) G1))))"





section \<open>Local repair of small defects\<close>

text \<open>
  The part of \<^verbatim>\<open>remeshSmallDefects\<close> that decides whether a replacement found by
  \<^verbatim>\<open>remeshFewQuads\<close> is applied. A \<^verbatim>\<open>MVertex*\<close> is a natural number, a
  \<^verbatim>\<open>MElement*\<close> is its address together with the vertices \<^verbatim>\<open>getVertex\<close> returns.
  \<^verbatim>\<open>remeshFewQuads\<close> is not part of the sources at hand: its results (the status,
  the new vertices and the new elements) are parameters, and by the comment at its call
  it does not modify the face. \<^verbatim>\<open>vertexSupport\<close> reads the CAD entity of a vertex and
  is a parameter too. The energies are sums of squares of small integers and of
  multiples of 1000, which \<^verbatim>\<open>double\<close> represents exactly: they are integers here.
\<close>

record MElement =
  e_ptr :: nat
  e_vertices :: "nat list"

record GFace =
  quadrangles :: "MElement list"
  mesh_vertices :: "nat list"

type_synonym adjacency = "nat \<rightharpoonup> MElement list"

definition CORNER :: int where "CORNER = 1"
definition CURVE :: int where "CURVE = 2"
definition SURFACE :: int where "SURFACE = 3"

text \<open>\<^verbatim>\<open>qval[v]\<close> of \<^verbatim>\<open>irregularityEnergyOfCavity\<close>.\<close>

definition qval :: "MElement list \<Rightarrow> nat \<Rightarrow> int" where
  "qval elts v = int (count_list (concat (map e_vertices elts)) v)"

definition bnd_energy :: "MElement list \<Rightarrow> nat list \<Rightarrow> int list \<Rightarrow> (int \<times> int) list \<Rightarrow> nat \<Rightarrow> int \<Rightarrow> int" where
  "bnd_energy elts bnd bndIdealValence bndAllowedValenceRange i energy =
     (let val = qval elts (bnd ! i) in
      if val = 0 then energy
      else
       (let e1 = energy + (val - bndIdealValence ! i) ^ 2 in
        if fst (bndAllowedValenceRange ! i) = snd (bndAllowedValenceRange ! i)
           \<and> val \<noteq> fst (bndAllowedValenceRange ! i)
        then e1 + 1000 * \<bar>val - fst (bndAllowedValenceRange ! i)\<bar>
        else e1))"

definition inside_energy :: "MElement list \<Rightarrow> nat \<Rightarrow> int \<Rightarrow> int" where
  "inside_energy elts v energy =
     (let val = qval elts v in
      if val = 0 then energy
      else
       (let e1 = energy + (val - 4) ^ 2 in
        if val > 5 then e1 + 1000 * (val - 5) else e1))"

definition irregularityEnergyOfCavity ::
    "nat list \<Rightarrow> int list \<Rightarrow> (int \<times> int) list \<Rightarrow> nat list \<Rightarrow> MElement list \<Rightarrow> int" where
  "irregularityEnergyOfCavity bnd bndIdealValence bndAllowedValenceRange inside elts =
     fold (inside_energy elts) inside
       (fold (bnd_energy elts bnd bndIdealValence bndAllowedValenceRange) [0..<length bnd] 0)"

definition addToAdjacencyList :: "MElement \<Rightarrow> adjacency \<Rightarrow> adjacency" where
  "addToAdjacencyList e adj =
     fold (\<lambda>v a. a(v \<mapsto> (case a v of None \<Rightarrow> [] | Some es \<Rightarrow> es) @ [e])) (e_vertices e) adj"

definition removeElement :: "MElement \<Rightarrow> GFace \<times> adjacency \<Rightarrow> GFace \<times> adjacency" where
  "removeElement e s =
     (let adj' = fold (\<lambda>v a. case a v of None \<Rightarrow> a | Some es \<Rightarrow> a(v \<mapsto> remove1 e es))
                   (e_vertices e) (snd s)
      in ((fst s)\<lparr>quadrangles := remove1 e (quadrangles (fst s))\<rparr>, adj'))"

text \<open>
  \<^verbatim>\<open>removeVertex\<close>: the vertex leaves the adjacency map, and the vertex list of the
  entity it is classified on; for a vertex on a face that is the list of the face.
\<close>

definition removeVertex :: "(nat \<Rightarrow> int) \<Rightarrow> nat \<Rightarrow> GFace \<times> adjacency \<Rightarrow> GFace \<times> adjacency" where
  "removeVertex vertexSupport v s =
     (let adj' = (snd s)(v := None) in
      if vertexSupport v = SURFACE
      then ((fst s)\<lparr>mesh_vertices := remove1 v (mesh_vertices (fst s))\<rparr>, adj')
      else (fst s, adj'))"

definition add_element :: "MElement \<Rightarrow> GFace \<times> adjacency \<Rightarrow> GFace \<times> adjacency" where
  "add_element nf s =
     ((fst s)\<lparr>quadrangles := quadrangles (fst s) @ [nf]\<rparr>, addToAdjacencyList nf (snd s))"

definition is_duet :: "int \<Rightarrow> nat list \<Rightarrow> MElement list \<Rightarrow> MElement list \<Rightarrow> bool" where
  "is_duet vs bnd elts newElements =
     (vs = SURFACE \<and> length bnd = 4 \<and> length elts = 2 \<and> length newElements \<noteq> 2)"

text \<open>
  The body of \<^verbatim>\<open>if (status == 0) { ... }\<close> up to the removal of the old quads and
  vertices; the result says whether the replacement was applied, and gives the face and
  the adjacency map afterwards. (The priority queue is not part of the surface mesh.)
\<close>

definition apply_replacement ::
    "(nat \<Rightarrow> int) \<Rightarrow> int \<Rightarrow> nat list \<Rightarrow> int list \<Rightarrow> (int \<times> int) list \<Rightarrow> nat list \<Rightarrow> MElement list
     \<Rightarrow> int \<Rightarrow> nat list \<Rightarrow> MElement list \<Rightarrow> GFace \<times> adjacency \<Rightarrow> bool \<times> GFace \<times> adjacency" where
  "apply_replacement vertexSupport vs bnd bndIdealValence bndAllowedValenceRange inside elts
       status newVertices newElements s =
     (if status = 0 then
        (let duet = is_duet vs bnd elts newElements;
             energy_before = irregularityEnergyOfCavity bnd bndIdealValence bndAllowedValenceRange inside elts;
             energy_after = irregularityEnergyOfCavity bnd bndIdealValence bndAllowedValenceRange newVertices newElements
         in if \<not> duet \<and> energy_after \<ge> energy_before then (False, s)
            else
             (let s1 = ((fst s)\<lparr>mesh_vertices := mesh_vertices (fst s) @ newVertices\<rparr>, snd s);
                  s2 = fold add_element newElements s1;
                  s3 = fold removeElement elts s2;
                  s4 = fold (removeVertex vertexSupport) inside s3
              in (True, s4)))
      else (False, s))"

section \<open>Smoothing with a local kernel\<close>

text \<open>
  The optimisation loop of \<^verbatim>\<open>smoothElementsWithLocalKernel\<close>. Positions have an
  arbitrary type \<open>'p\<close>; \<^verbatim>\<open>kernelSmoothing\<close> (which computes in floating point and
  writes \<^verbatim>\<open>points[v]\<close> only when it returns \<^verbatim>\<open>KS_OK\<close>) is the parameter \<open>ks\<close>:
  \<open>ks useStencilProjection v points\<close> is the new position, or \<open>None\<close> for any other
  status. \<open>len a b\<close> stands for \<^verbatim>\<open>length(a - b)\<close>; lengths and thresholds are
  real numbers.
\<close>

record 'p sweep =
  sw_points :: "'p list"
  sw_running :: "bool list"
  sw_sum_dx :: real
  sw_max_dx :: real
  sw_count :: nat

text \<open>Body of the loop over the free vertices.\<close>

definition smooth_vertex ::
    "(bool \<Rightarrow> nat \<Rightarrow> 'p list \<Rightarrow> 'p option) \<Rightarrow> ('p \<Rightarrow> 'p \<Rightarrow> real) \<Rightarrow> real \<Rightarrow> real list \<Rightarrow> bool
     \<Rightarrow> nat \<Rightarrow> 'p sweep \<Rightarrow> 'p sweep" where
  "smooth_vertex ks len local_dx_reduction localAvgSize useStencilProjection i st =
     (if sw_running st ! i then
        (let center = sw_points st ! i in
         case ks useStencilProjection i (sw_points st) of
           Some newPos \<Rightarrow>
             (let dx = len center newPos;
                  st1 = st\<lparr>sw_points := (sw_points st)[i := newPos],
                           sw_max_dx := max (sw_max_dx st) dx,
                           sw_sum_dx := sw_sum_dx st + dx\<rparr>
              in if dx < local_dx_reduction * localAvgSize ! i
                 then st1\<lparr>sw_running := (sw_running st)[i := False]\<rparr>
                 else st1\<lparr>sw_count := sw_count st + 1\<rparr>)
         | None \<Rightarrow> st\<lparr>sw_running := (sw_running st)[i := False]\<rparr>)
      else st)"

text \<open>One iteration of the outer loop: the sweep over all free vertices.\<close>

definition smooth_sweep ::
    "(bool \<Rightarrow> nat \<Rightarrow> 'p list \<Rightarrow> 'p option) \<Rightarrow> ('p \<Rightarrow> 'p \<Rightarrow> real) \<Rightarrow> real \<Rightarrow> real list \<Rightarrow> bool
     \<Rightarrow> 'p list \<Rightarrow> bool list \<Rightarrow> 'p sweep" where
  "smooth_sweep ks len local_dx_reduction localAvgSize useStencilProjection pts run =
     fold (smooth_vertex ks len local_dx_reduction localAvgSize useStencilProjection)
       [0..<length run]
       \<lparr>sw_points = pts, sw_running = run, sw_sum_dx = 0, sw_max_dx = 0, sw_count = 0\<rparr>"

text \<open>
  The outer loop from iteration \<open>iter\<close> on. The result is the positions, the
  \<^verbatim>\<open>running\<close> flags and the number of iterations that were executed.
\<close>

function optimization_loop ::
    "(bool \<Rightarrow> nat \<Rightarrow> 'p list \<Rightarrow> 'p option) \<Rightarrow> ('p \<Rightarrow> 'p \<Rightarrow> real) \<Rightarrow> real \<Rightarrow> real \<Rightarrow> real list \<Rightarrow> bool
     \<Rightarrow> nat \<Rightarrow> nat \<Rightarrow> 'p list \<Rightarrow> bool list \<Rightarrow> real \<Rightarrow> 'p list \<times> bool list \<times> nat" where
  "optimization_loop ks len global_dx_reduction local_dx_reduction localAvgSize projOnStencil
       iterMaxOuterLoop iter pts run sum_dx0 =
     (if iter < iterMaxOuterLoop then
        (let useStencilProjection = (projOnStencil \<and> iter < iterMaxOuterLoop - 1);
             st = smooth_sweep ks len local_dx_reduction localAvgSize useStencilProjection pts run
         in if iter = 0
            then optimization_loop ks len global_dx_reduction local_dx_reduction localAvgSize
                   projOnStencil iterMaxOuterLoop (iter + 1) (sw_points st) (sw_running st) (sw_sum_dx st)
            else if sw_sum_dx st < global_dx_reduction * sum_dx0
              then (sw_points st, sw_running st, iter + 1)
            else if sw_count st = 0
              then (sw_points st, sw_running st, iter + 1)
            else optimization_loop ks len global_dx_reduction local_dx_reduction localAvgSize
                   projOnStencil iterMaxOuterLoop (iter + 1) (sw_points st) (sw_running st) sum_dx0)
      else (pts, run, iter))"
  by pat_completeness auto
termination
  by (relation "measure (\<lambda>(ks, len, g, l, avg, proj, iterMax, iter, pts, run, s0). iterMax - iter)") auto

declare optimization_loop.simps [simp del]

section \<open>Properties: auxiliary notions\<close>

text \<open>
  The "closing a hole" configuration of \<^verbatim>\<open>growByFlip\<close>: the quad opposite to the
  boundary half-edge \<^verbatim>\<open>hes[i]\<close> exists and its three other neighbours are in
  the cavity.
\<close>

definition closing_hole :: "MeshHalfEdges \<Rightarrow> FCavity \<Rightarrow> nat \<Rightarrow> bool" where
  "closing_hole M cav i =
     (i < length (hes cav) \<and> opposite M (hes cav ! i) \<noteq> NO_ID \<and>
      (let he0 = opposite M (hes cav ! i);
           he1 = h_next (hedges M ! he0);
           he2 = h_next (hedges M ! he1);
           he3 = h_next (hedges M ! he2)
       in quad_in M cav (h_opposite (hedges M ! he1)) \<and>
          quad_in M cav (h_opposite (hedges M ! he2)) \<and>
          quad_in M cav (h_opposite (hedges M ! he3))))"

text \<open>
  What a call of \<^verbatim>\<open>growByFlip\<close> may do to the cavity: when it returns false
  (and \<open>strict\<close> holds) the cavity is untouched, when it returns true the quad
  \<open>nq\<close> has been added.
\<close>

definition flip_effect :: "FCavity \<Rightarrow> nat \<Rightarrow> bool \<Rightarrow> (bool \<times> FCavity \<times> FlipInfo) exec \<Rightarrow> bool" where
  "flip_effect cav nq strict x =
     (\<forall>ok cav' info'. x = Returns (ok, cav', info') \<longrightarrow>
        (\<not> ok \<and> strict \<longrightarrow> cav' = cav) \<and>
        (ok \<longrightarrow> quads cav' = insert nq (quads cav) \<and> side cav' = side cav \<and> fi_nq info' = nq))"

text \<open>
  Notions for the construction of the structure: the half-edge indices stored in
  \<^verbatim>\<open>new2old\<close>, a symmetric \<^verbatim>\<open>opposite\<close> relation, and the state of the loop
  over the quads (\<open>mv2new\<close> is injective into the vertex array, and the four
  half-edges of quad \<open>f\<close> are \<open>4 f .. 4 f + 3\<close>).
\<close>

definition slot_entries :: "(nat \<times> nat) list \<Rightarrow> nat list" where
  "slot_entries ps = filter (\<lambda>x. x \<noteq> NO_ID) (concat (map (\<lambda>p. [fst p, snd p]) ps))"

definition opp_sym :: "HalfEdge list \<Rightarrow> bool" where
  "opp_sym hs =
     (\<forall>he < length hs. h_opposite (hs ! he) \<noteq> NO_ID \<longrightarrow>
        h_opposite (hs ! he) < length hs \<and> h_opposite (hs ! h_opposite (hs ! he)) = he)"

definition vmap_ok :: "Vertex list \<Rightarrow> (nat \<rightharpoonup> nat) \<Rightarrow> bool" where
  "vmap_ok vs mv =
     ((\<forall>a n. mv a = Some n \<longrightarrow> n < length vs) \<and>
      (\<forall>a b n. mv a = Some n \<longrightarrow> mv b = Some n \<longrightarrow> a = b))"

definition built_inv :: "MQuadrangle list \<Rightarrow> MeshHalfEdges \<times> (nat \<rightharpoonup> nat) \<Rightarrow> bool" where
  "built_inv qs s =
     (length (hedges (fst s)) = 4 * length qs \<and>
      length (faces (fst s)) = length qs \<and>
      length (vertices (fst s)) \<le> 4 * length qs \<and>
      vmap_ok (vertices (fst s)) (snd s) \<and>
      (\<forall>f < length qs. \<forall>k < 4.
         snd s (getVertex (qs ! f) ((k + 1) mod 4)) \<noteq> None \<and>
         hedges (fst s) ! (4 * f + k) =
           \<lparr>h_prev = 4 * f + (k + 3) mod 4, h_next = 4 * f + (k + 1) mod 4,
            h_opposite = NO_ID,
            h_vertex = the (snd s (getVertex (qs ! f) ((k + 1) mod 4))),
            h_face = f\<rparr>))"

text \<open>
  Notions for the return code of the construction: the rank of a key among the
  keys of a list, the number of half-edges already stored in an entry of
  \<^verbatim>\<open>new2old\<close>, and the number of half-edges a loop will send to a slot.
\<close>

definition rank_in :: "('a::linorder) list \<Rightarrow> 'a \<Rightarrow> nat" where
  "rank_in inp x = card {y \<in> set inp. y < x}"

definition slot_fill :: "nat \<times> nat \<Rightarrow> nat" where
  "slot_fill p = (if fst p = NO_ID then 0 else if snd p = NO_ID then 1 else 2)"

definition slot_count :: "nat list \<Rightarrow> nat list \<Rightarrow> nat \<Rightarrow> nat" where
  "slot_count old2new is s = length (filter (\<lambda>i. old2new ! i = s) is)"

text \<open>
  Edges of the input quads. Side \<open>k\<close> of a quad joins its corners \<open>k\<close> and
  \<open>(k + 1) mod 4\<close>; an edge is a pair of vertices read without order; a quad has
  an edge when one of its sides joins the two vertices; \<open>quads_sharing\<close> counts
  the quads of the input that have the edge. A proper quad has four distinct
  corners. \<open>hedge_side\<close> is the side half-edge \<open>i\<close> is built from.
\<close>

definition quad_side :: "MQuadrangle \<Rightarrow> nat \<Rightarrow> nat \<times> nat" where
  "quad_side q k = (getVertex q k, getVertex q ((k + 1) mod 4))"

definition same_edge :: "nat \<times> nat \<Rightarrow> nat \<times> nat \<Rightarrow> bool" where
  "same_edge e e' = (e = e' \<or> e = (snd e', fst e'))"

definition has_edge :: "MQuadrangle \<Rightarrow> nat \<times> nat \<Rightarrow> bool" where
  "has_edge q e = list_ex (\<lambda>k. same_edge (quad_side q k) e) [0..<4]"

definition quads_sharing :: "MQuadrangle list \<Rightarrow> nat \<times> nat \<Rightarrow> nat" where
  "quads_sharing qs e = length (filter (\<lambda>q. has_edge q e) qs)"

definition proper_quad :: "MQuadrangle \<Rightarrow> bool" where
  "proper_quad q = distinct (map (getVertex q) [0..<4])"

definition hedge_side :: "MQuadrangle list \<Rightarrow> nat \<Rightarrow> nat \<times> nat" where
  "hedge_side qs i = quad_side (qs ! (i div 4)) (i mod 4)"

text \<open>
  The number of entries the two loops of \<^verbatim>\<open>vertexFaces\<close> write: the larger of the
  numbers of faces the first and the second loop visit (the second loop starts again at
  index 0); \<open>None\<close> when a loop never ends.
\<close>

definition faces_written :: "MeshHalfEdges \<Rightarrow> nat \<Rightarrow> nat option" where
  "faces_written M v =
     (let he = v_he (vertices M ! v) in
      case vf_turn M he he [] of
        None \<Rightarrow> None
      | Some (fs, he_bdr) \<Rightarrow>
          if he_bdr = NO_ID then Some (length fs)
          else (case vf_unroll M he he_bdr [] of
                  None \<Rightarrow> None
                | Some fs2 \<Rightarrow> Some (max (length fs) (length fs2))))"

text \<open>
  The iterations of the outer loop of \<^verbatim>\<open>smoothElementsWithLocalKernel\<close> in the
  words of its description. \<open>sweep_seq \<dots> k\<close> is the state after \<open>k\<close> sweeps over
  the free vertices, each started from the points and the flags the one before it left.
  The loop stops after iteration \<open>k\<close> (counted from 0) when \<open>k\<close> is not the first
  iteration and its total displacement is below \<open>g\<close> times the total of the first
  iteration, or it left no vertex unlocked. \<open>n\<close> iterations are executed when \<open>n\<close>
  is at most \<^verbatim>\<open>iterMaxOuterLoop\<close>, the loop stops after none of the iterations before
  the last, and, if \<open>n\<close> is below \<^verbatim>\<open>iterMaxOuterLoop\<close>, the loop stops after the
  last.
\<close>

primrec sweep_seq ::
    "(bool \<Rightarrow> nat \<Rightarrow> 'p list \<Rightarrow> 'p option) \<Rightarrow> ('p \<Rightarrow> 'p \<Rightarrow> real) \<Rightarrow> real \<Rightarrow> real list \<Rightarrow> bool
     \<Rightarrow> nat \<Rightarrow> 'p list \<Rightarrow> bool list \<Rightarrow> nat \<Rightarrow> 'p sweep" where
  "sweep_seq ks len l avg proj iterMax pts run 0 =
     \<lparr>sw_points = pts, sw_running = run, sw_sum_dx = 0, sw_max_dx = 0, sw_count = 0\<rparr>"
| "sweep_seq ks len l avg proj iterMax pts run (Suc k) =
     smooth_sweep ks len l avg (proj \<and> k < iterMax - 1)
       (sw_points (sweep_seq ks len l avg proj iterMax pts run k))
       (sw_running (sweep_seq ks len l avg proj iterMax pts run k))"

definition stops_after :: "real \<Rightarrow> (nat \<Rightarrow> 'p sweep) \<Rightarrow> nat \<Rightarrow> bool" where
  "stops_after g sq k =
     (0 < k \<and> (sw_sum_dx (sq (Suc k)) < g * sw_sum_dx (sq 1) \<or> sw_count (sq (Suc k)) = 0))"

definition executed :: "nat \<Rightarrow> real \<Rightarrow> (nat \<Rightarrow> 'p sweep) \<Rightarrow> nat \<Rightarrow> bool" where
  "executed iterMax g sq n =
     (n \<le> iterMax \<and> (\<forall>k. Suc k < n \<longrightarrow> \<not> stops_after g sq k) \<and>
      (n < iterMax \<longrightarrow> 0 < n \<and> stops_after g sq (n - 1)))"

section \<open>Concrete meshes\<close>

text \<open>
  A 3x3 grid of quads, all counter-clockwise; the vertex at column \<open>i\<close> and row
  \<open>j\<close> has the address \<open>100 + 4 j + i\<close>. \<open>grid3_mesh\<close> is the half-edge
  structure of this grid written out by hand, \<open>grid3_sing\<close> the same with the
  interior vertex 105 (index 2) flagged as a singularity.
\<close>

definition grid3 :: "MQuadrangle list" where
  "grid3 = [(100, 101, 105, 104), (101, 102, 106, 105), (102, 103, 107, 106),
            (104, 105, 109, 108), (105, 106, 110, 109), (106, 107, 111, 110),
            (108, 109, 113, 112), (109, 110, 114, 113), (110, 111, 115, 114)]"

definition grid3_mesh :: MeshHalfEdges where
  "grid3_mesh =
  \<lparr>vertices =
    [\<lparr>v_he = 3, v_isSingularity = False, v_ptr = 100\<rparr>,
     \<lparr>v_he = 0, v_isSingularity = False, v_ptr = 101\<rparr>,
     \<lparr>v_he = 1, v_isSingularity = False, v_ptr = 105\<rparr>,
     \<lparr>v_he = 2, v_isSingularity = False, v_ptr = 104\<rparr>,
     \<lparr>v_he = 4, v_isSingularity = False, v_ptr = 102\<rparr>,
     \<lparr>v_he = 5, v_isSingularity = False, v_ptr = 106\<rparr>,
     \<lparr>v_he = 8, v_isSingularity = False, v_ptr = 103\<rparr>,
     \<lparr>v_he = 9, v_isSingularity = False, v_ptr = 107\<rparr>,
     \<lparr>v_he = 13, v_isSingularity = False, v_ptr = 109\<rparr>,
     \<lparr>v_he = 14, v_isSingularity = False, v_ptr = 108\<rparr>,
     \<lparr>v_he = 17, v_isSingularity = False, v_ptr = 110\<rparr>,
     \<lparr>v_he = 21, v_isSingularity = False, v_ptr = 111\<rparr>,
     \<lparr>v_he = 25, v_isSingularity = False, v_ptr = 113\<rparr>,
     \<lparr>v_he = 26, v_isSingularity = False, v_ptr = 112\<rparr>,
     \<lparr>v_he = 29, v_isSingularity = False, v_ptr = 114\<rparr>,
     \<lparr>v_he = 33, v_isSingularity = False, v_ptr = 115\<rparr>],
   hedges =
    [\<lparr>h_prev = 3, h_next = 1, h_opposite = NO_ID, h_vertex = 1, h_face = 0\<rparr>,
     \<lparr>h_prev = 0, h_next = 2, h_opposite = 7, h_vertex = 2, h_face = 0\<rparr>,
     \<lparr>h_prev = 1, h_next = 3, h_opposite = 12, h_vertex = 3, h_face = 0\<rparr>,
     \<lparr>h_prev = 2, h_next = 0, h_opposite = NO_ID, h_vertex = 0, h_face = 0\<rparr>,
     \<lparr>h_prev = 7, h_next = 5, h_opposite = NO_ID, h_vertex = 4, h_face = 1\<rparr>,
     \<lparr>h_prev = 4, h_next = 6, h_opposite = 11, h_vertex = 5, h_face = 1\<rparr>,
     \<lparr>h_prev = 5, h_next = 7, h_opposite = 16, h_vertex = 2, h_face = 1\<rparr>,
     \<lparr>h_prev = 6, h_next = 4, h_opposite = 1, h_vertex = 1, h_face = 1\<rparr>,
     \<lparr>h_prev = 11, h_next = 9, h_opposite = NO_ID, h_vertex = 6, h_face = 2\<rparr>,
     \<lparr>h_prev = 8, h_next = 10, h_opposite = NO_ID, h_vertex = 7, h_face = 2\<rparr>,
     \<lparr>h_prev = 9, h_next = 11, h_opposite = 20, h_vertex = 5, h_face = 2\<rparr>,
     \<lparr>h_prev = 10, h_next = 8, h_opposite = 5, h_vertex = 4, h_face = 2\<rparr>,
     \<lparr>h_prev = 15, h_next = 13, h_opposite = 2, h_vertex = 2, h_face = 3\<rparr>,
     \<lparr>h_prev = 12, h_next = 14, h_opposite = 19, h_vertex = 8, h_face = 3\<rparr>,
     \<lparr>h_prev = 13, h_next = 15, h_opposite = 24, h_vertex = 9, h_face = 3\<rparr>,
     \<lparr>h_prev = 14, h_next = 12, h_opposite = NO_ID, h_vertex = 3, h_face = 3\<rparr>,
     \<lparr>h_prev = 19, h_next = 17, h_opposite = 6, h_vertex = 5, h_face = 4\<rparr>,
     \<lparr>h_prev = 16, h_next = 18, h_opposite = 23, h_vertex = 10, h_face = 4\<rparr>,
     \<lparr>h_prev = 17, h_next = 19, h_opposite = 28, h_vertex = 8, h_face = 4\<rparr>,
     \<lparr>h_prev = 18, h_next = 16, h_opposite = 13, h_vertex = 2, h_face = 4\<rparr>,
     \<lparr>h_prev = 23, h_next = 21, h_opposite = 10, h_vertex = 7, h_face = 5\<rparr>,
     \<lparr>h_prev = 20, h_next = 22, h_opposite = NO_ID, h_vertex = 11, h_face = 5\<rparr>,
     \<lparr>h_prev = 21, h_next = 23, h_opposite = 32, h_vertex = 10, h_face = 5\<rparr>,
     \<lparr>h_prev = 22, h_next = 20, h_opposite = 17, h_vertex = 5, h_face = 5\<rparr>,
     \<lparr>h_prev = 27, h_next = 25, h_opposite = 14, h_vertex = 8, h_face = 6\<rparr>,
     \<lparr>h_prev = 24, h_next = 26, h_opposite = 31, h_vertex = 12, h_face = 6\<rparr>,
     \<lparr>h_prev = 25, h_next = 27, h_opposite = NO_ID, h_vertex = 13, h_face = 6\<rparr>,
     \<lparr>h_prev = 26, h_next = 24, h_opposite = NO_ID, h_vertex = 9, h_face = 6\<rparr>,
     \<lparr>h_prev = 31, h_next = 29, h_opposite = 18, h_vertex = 10, h_face = 7\<rparr>,
     \<lparr>h_prev = 28, h_next = 30, h_opposite = 35, h_vertex = 14, h_face = 7\<rparr>,
     \<lparr>h_prev = 29, h_next = 31, h_opposite = NO_ID, h_vertex = 12, h_face = 7\<rparr>,
     \<lparr>h_prev = 30, h_next = 28, h_opposite = 25, h_vertex = 8, h_face = 7\<rparr>,
     \<lparr>h_prev = 35, h_next = 33, h_opposite = 22, h_vertex = 11, h_face = 8\<rparr>,
     \<lparr>h_prev = 32, h_next = 34, h_opposite = NO_ID, h_vertex = 15, h_face = 8\<rparr>,
     \<lparr>h_prev = 33, h_next = 35, h_opposite = NO_ID, h_vertex = 14, h_face = 8\<rparr>,
     \<lparr>h_prev = 34, h_next = 32, h_opposite = 29, h_vertex = 10, h_face = 8\<rparr>],
   faces =
    [\<lparr>f_he = 0\<rparr>, \<lparr>f_he = 4\<rparr>, \<lparr>f_he = 8\<rparr>, \<lparr>f_he = 12\<rparr>, \<lparr>f_he = 16\<rparr>, \<lparr>f_he = 20\<rparr>, \<lparr>f_he = 24\<rparr>, \<lparr>f_he = 28\<rparr>, \<lparr>f_he = 32\<rparr>]\<rparr>"

definition grid3_sing :: MeshHalfEdges where
  "grid3_sing = grid3_mesh\<lparr>vertices :=
     (vertices grid3_mesh)[2 := (vertices grid3_mesh ! 2)\<lparr>v_isSingularity := True\<rparr>]\<rparr>"


definition strip2 :: "MQuadrangle list" where
  "strip2 = [(100, 101, 104, 103), (101, 102, 105, 104)]"

definition strip2_mesh :: MeshHalfEdges where
  "strip2_mesh =
  \<lparr>vertices =
    [\<lparr>v_he = 3, v_isSingularity = False, v_ptr = 100\<rparr>,
     \<lparr>v_he = 0, v_isSingularity = True, v_ptr = 101\<rparr>,
     \<lparr>v_he = 1, v_isSingularity = False, v_ptr = 104\<rparr>,
     \<lparr>v_he = 2, v_isSingularity = False, v_ptr = 103\<rparr>,
     \<lparr>v_he = 4, v_isSingularity = False, v_ptr = 102\<rparr>,
     \<lparr>v_he = 5, v_isSingularity = False, v_ptr = 105\<rparr>],
   hedges =
    [\<lparr>h_prev = 3, h_next = 1, h_opposite = NO_ID, h_vertex = 1, h_face = 0\<rparr>,
     \<lparr>h_prev = 0, h_next = 2, h_opposite = 7, h_vertex = 2, h_face = 0\<rparr>,
     \<lparr>h_prev = 1, h_next = 3, h_opposite = NO_ID, h_vertex = 3, h_face = 0\<rparr>,
     \<lparr>h_prev = 2, h_next = 0, h_opposite = NO_ID, h_vertex = 0, h_face = 0\<rparr>,
     \<lparr>h_prev = 7, h_next = 5, h_opposite = NO_ID, h_vertex = 4, h_face = 1\<rparr>,
     \<lparr>h_prev = 4, h_next = 6, h_opposite = NO_ID, h_vertex = 5, h_face = 1\<rparr>,
     \<lparr>h_prev = 5, h_next = 7, h_opposite = NO_ID, h_vertex = 2, h_face = 1\<rparr>,
     \<lparr>h_prev = 6, h_next = 4, h_opposite = 1, h_vertex = 1, h_face = 1\<rparr>],
   faces =
    [\<lparr>f_he = 0\<rparr>, \<lparr>f_he = 4\<rparr>]\<rparr>"

text \<open>Three quads on the edge between the vertices 1 and 2.\<close>

definition book3 :: "MQuadrangle list" where
  "book3 = [(1, 2, 3, 4), (2, 1, 5, 6), (1, 2, 7, 8)]"

definition no_info :: FlipInfo where
  "no_info = \<lparr>fi_he = NO_ID, fi_nq = NO_ID, fi_nvs = no_nvs\<rparr>"


text \<open>
  The strip is two quads side by side; vertex 101 lies on their common edge and on the
  boundary of the mesh, and is flagged singular. \<open>ring_cavity\<close> is the ring of the
  eight outer quads of the grid, bounded by the outer loop and by the four half-edges
  around the central quad 4.
\<close>

definition strip_cavity :: FCavity where
  "strip_cavity = \<lparr>hes = [0, 1, 2, 3], side = [0, 1, 2, 3], quads = {0}\<rparr>"

definition strip_gardener0 :: Gardener where
  "strip_gardener0 =
     \<lparr>valence = [1, 2, 2, 1, 1, 1], vOnBoundary = [True, True, True, True, True, True],
      valenceInCavity = [0, 0, 0, 0, 0, 0], cavityTargetNbOfSides = 0,
      sings = {}, singsBdr = {}, irregular = {},
      lastCav = \<lparr>hes = [], side = [], quads = {}\<rparr>, lastNbIrregular = 0\<rparr>"


definition corner_cavity :: FCavity where
  "corner_cavity = \<lparr>hes = [0, 4, 5, 6, 2, 3], side = [0, 0, 1, 2, 2, 3], quads = {0, 1}\<rparr>"



text \<open>
  A hexagon 1..6 meshed by three quads around the vertex 9, or by two quads; two
  kernels on the real line.
\<close>

definition old3 :: "MElement list" where
  "old3 = [\<lparr>e_ptr = 20, e_vertices = [1, 2, 9, 6]\<rparr>, \<lparr>e_ptr = 21, e_vertices = [2, 3, 4, 9]\<rparr>,
           \<lparr>e_ptr = 22, e_vertices = [4, 5, 6, 9]\<rparr>]"

definition new2 :: "MElement list" where
  "new2 = [\<lparr>e_ptr = 30, e_vertices = [1, 2, 3, 4]\<rparr>, \<lparr>e_ptr = 31, e_vertices = [1, 4, 5, 6]\<rparr>]"

definition hexagon :: "nat list" where
  "hexagon = [1, 2, 3, 4, 5, 6]"

definition hexagon_ideal :: "int list" where
  "hexagon_ideal = [2, 1, 1, 2, 1, 1]"

definition hexagon_allowed :: "(int \<times> int) list" where
  "hexagon_allowed = [(1, 4), (1, 4), (1, 4), (1, 4), (1, 4), (1, 4)]"

definition face_new2 :: "GFace \<times> adjacency" where
  "face_new2 = (\<lparr>quadrangles = new2, mesh_vertices = [1, 2, 3, 4, 5, 6]\<rparr>,
     fold addToAdjacencyList new2 Map.empty)"

definition face_old3 :: "GFace \<times> adjacency" where
  "face_old3 = (\<lparr>quadrangles = old3, mesh_vertices = [1, 2, 3, 4, 5, 6, 9]\<rparr>,
     fold addToAdjacencyList old3 Map.empty)"

definition halving :: "bool \<Rightarrow> nat \<Rightarrow> real list \<Rightarrow> real option" where
  "halving u v points = Some (points ! v / 2)"

definition shifting :: "bool \<Rightarrow> nat \<Rightarrow> real list \<Rightarrow> real option" where
  "shifting u v points = Some (points ! v + 1)"

definition gap :: "real \<Rightarrow> real \<Rightarrow> real" where
  "gap a b = \<bar>a - b\<bar>"

section \<open>Evaluation on the concrete meshes\<close>

lemmas mesh_eval = next_def opposite_def prev_def vertex_def isSing_def NO_ID_def Let_def

lemmas build_eval = createMeshHalfEdges_def add_quad_def find_or_add_def set_vertex_he_def
  new_hedge_def sort_unique_with_perm_def vPair_def sup_outer.simps sup_inner.simps
  set_opposites_def flag_singular_def upt_rec

lemmas flip_eval = growByFlip_def quad_in_def flip_m2v_def flip_close_def flip_1v_def flip_p2v_def
  flip_done_def flip_rejected_def bind_exec_def erase_find_def concave_at_sing_def
  orderedHalfEdgesFromStack_def ohs_loop.simps valenceInsideQuads_def valenceOutsideQuads_def
  vertexFaces_array_def vertexFaces_def faces_written_def vf_turn.simps vf_unroll.simps BSIZE_def
  no_nvs_def



text \<open>The hand-written structures are the ones \<^verbatim>\<open>createMeshHalfEdges\<close> builds.\<close>

lemma grid3_built: "createMeshHalfEdges grid3 [] = (0, grid3_mesh)"
  by (simp add: build_eval mesh_eval grid3_def grid3_mesh_def)

lemma grid3_sing_built: "createMeshHalfEdges grid3 [105] = (0, grid3_sing)"
  by (simp add: build_eval mesh_eval grid3_def grid3_sing_def grid3_mesh_def)

lemma strip2_built: "createMeshHalfEdges strip2 [101] = (0, strip2_mesh)"
  by (simp add: build_eval mesh_eval strip2_def strip2_mesh_def)




lemma strip_flip:
  "growByFlip strip2_mesh strip_cavity 1 no_info True =
     Returns (True, \<lparr>hes = [0, 4, 5, 6, 2, 3], side = [0, 1, 2, 3], quads = {0, 1}\<rparr>,
              \<lparr>fi_he = 1, fi_nq = 1, fi_nvs = no_nvs\<rparr>)"
  by (simp add: flip_eval mesh_eval strip2_mesh_def strip_cavity_def no_info_def insert_commute)




lemma corner_flip_rejected:
  "growByFlip grid3_sing corner_cavity 3 no_info True =
     Returns (False, corner_cavity, \<lparr>fi_he = 6, fi_nq = 4, fi_nvs = no_nvs\<rparr>)"
  by (simp add: flip_eval mesh_eval grid3_sing_def grid3_mesh_def corner_cavity_def no_info_def)

lemma corner_not_closing: "\<not> closing_hole grid3_sing corner_cavity 3"
  by (simp add: closing_hole_def quad_in_def mesh_eval grid3_sing_def grid3_mesh_def corner_cavity_def)











section \<open>Claims\<close>

text \<open>
  C5. \<^verbatim>\<open>vertexFaceValence\<close> on the 3x3 grid: the four interior vertices
  (indices 2, 5, 8, 10) return valence 4 with \<open>onBoundary = false\<close>. On the boundary
  the second loop starts at the boundary half-edge \<^verbatim>\<open>he_bdr\<close>, which leaves the
  vertex, and turns again by \<^verbatim>\<open>opposite(next(he))\<close> (where \<^verbatim>\<open>vertexFaces\<close> turns by
  \<^verbatim>\<open>opposite(prev(he))\<close>): it counts the quads around the tip of \<^verbatim>\<open>he_bdr\<close>.
  So the non-corner boundary vertices 3, 4, 11 and 12 (addresses 104, 102, 111, 113),
  whose next boundary vertex is a corner of the grid, return valence 1 and not 2.
\<close>

theorem vertexFaceValence_grid3:
  "map (vertexFaceValence grid3_mesh) [0..<16] =
     [Returns (2, True), Returns (2, True), Returns (4, False), Returns (1, True),
      Returns (1, True), Returns (4, False), Returns (2, True), Returns (2, True),
      Returns (4, False), Returns (2, True), Returns (4, False), Returns (1, True),
      Returns (1, True), Returns (2, True), Returns (2, True), Returns (2, True)]"
  by (simp add: vertexFaceValence_def vfv_turn.simps vfv_unroll.simps mesh_eval grid3_mesh_def upt_rec)




text \<open>Structure of the half-edges after the loop over the quads.\<close>

lemma find_or_add_spec:
  assumes "vmap_ok vs mv" and "length vs < NO_ID"
    and "find_or_add (vs, mv) v1 = (nv, vs', mv')"
  shows "mv' v1 = Some nv \<and> vmap_ok vs' mv' \<and> (\<forall>a n. mv a = Some n \<longrightarrow> mv' a = Some n) \<and>
         length vs \<le> length vs' \<and> length vs' \<le> length vs + 1"
proof (cases "mv v1")
  case None
  with assms(3) have r: "nv = length vs" "mv' = mv(v1 \<mapsto> length vs)"
    "vs' = vs @ [\<lparr>v_he = NO_ID, v_isSingularity = False, v_ptr = v1\<rparr>]"
    by (auto simp: find_or_add_def Let_def)
  have "vmap_ok vs' mv'"
    using assms(1) None unfolding vmap_ok_def r
    by (auto simp: less_Suc_eq split: if_splits) 
  then show ?thesis using None r by auto
next
  case (Some n)
  with assms(1) have "n < length vs" by (auto simp: vmap_ok_def)
  with assms(2) have "n \<noteq> NO_ID" by simp
  with assms(3) Some have "nv = n" "mv' = mv" "vs' = vs"
    by (auto simp: find_or_add_def Let_def)
  with assms(1) Some show ?thesis by simp
qed

lemma fold_set_vertex_he_length [simp]:
  "length (fold (set_vertex_he quad he0) ks vs) = length vs"
  by (induction ks arbitrary: vs) (simp_all add: set_vertex_he_def Let_def)

lemma add_quad_inv:
  assumes inv: "built_inv qs s" and small: "4 * length (qs @ [q]) < NO_ID"
  shows "built_inv (qs @ [q]) (add_quad q s)"
proof -
  let ?M = "fst s" and ?mv = "snd s"
  obtain n0 vs0 mv0 where f0: "find_or_add (vertices ?M, ?mv) (getVertex q 0) = (n0, vs0, mv0)"
    by (metis prod_cases3)
  obtain n1 vs1 mv1 where f1: "find_or_add (vs0, mv0) (getVertex q 1) = (n1, vs1, mv1)"
    by (metis prod_cases3)
  obtain n2 vs2 mv2 where f2: "find_or_add (vs1, mv1) (getVertex q 2) = (n2, vs2, mv2)"
    by (metis prod_cases3)
  obtain n3 vs3 mv3 where f3: "find_or_add (vs2, mv2) (getVertex q 3) = (n3, vs3, mv3)"
    by (metis prod_cases3)
  from inv have len: "length (hedges ?M) = 4 * length qs"
    and flen: "length (faces ?M) = length qs"
    and vlen: "length (vertices ?M) \<le> 4 * length qs"
    and ok: "vmap_ok (vertices ?M) ?mv"
    and old: "\<forall>f < length qs. \<forall>k < 4.
         ?mv (getVertex (qs ! f) ((k + 1) mod 4)) \<noteq> None \<and>
         hedges ?M ! (4 * f + k) =
           \<lparr>h_prev = 4 * f + (k + 3) mod 4, h_next = 4 * f + (k + 1) mod 4,
            h_opposite = NO_ID,
            h_vertex = the (?mv (getVertex (qs ! f) ((k + 1) mod 4))),
            h_face = f\<rparr>"
    by (simp_all add: built_inv_def)
  from small vlen have b0: "length (vertices ?M) < NO_ID" by simp
  note s0 = find_or_add_spec [OF ok b0 f0]
  from s0 small vlen have b1: "length vs0 < NO_ID" by simp
  from s0 have ok0: "vmap_ok vs0 mv0" by simp
  note s1 = find_or_add_spec [OF ok0 b1 f1]
  from s0 s1 small vlen have b2: "length vs1 < NO_ID" by simp
  from s1 have ok1: "vmap_ok vs1 mv1" by simp
  note s2 = find_or_add_spec [OF ok1 b2 f2]
  from s0 s1 s2 small vlen have b3: "length vs2 < NO_ID" by simp
  from s2 have ok2: "vmap_ok vs2 mv2" by simp
  note s3 = find_or_add_spec [OF ok2 b3 f3]
  have ext: "\<forall>a n. ?mv a = Some n \<longrightarrow> mv3 a = Some n"
    using s0 s1 s2 s3 by blast
  have m0: "mv3 (getVertex q 0) = Some n0" using s0 s1 s2 s3 by blast
  have m1: "mv3 (getVertex q 1) = Some n1" using s1 s2 s3 by blast
  have m2: "mv3 (getVertex q 2) = Some n2" using s2 s3 by blast
  have m3: "mv3 (getVertex q 3) = Some n3" using s3 by blast
  let ?quad = "[n0, n1, n2, n3]"
  have aq: "add_quad q s =
      (\<lparr>vertices = fold (set_vertex_he ?quad (length (hedges ?M))) [0..<4] vs3,
        hedges = hedges ?M @ map (new_hedge ?quad (length (faces ?M)) (length (hedges ?M))) [0..<4],
        faces = faces ?M @ [\<lparr>f_he = length (hedges ?M)\<rparr>]\<rparr>, mv3)"
    unfolding add_quad_def Let_def
    by (simp only: f0 f1 f2 f3 prod.case fst_conv snd_conv)
  have vlen3: "length vs3 \<le> 4 * length (qs @ [q])"
    using s0 s1 s2 s3 vlen by simp
  have newh: "snd (add_quad q s) (getVertex ((qs @ [q]) ! f) ((k + 1) mod 4)) \<noteq> None \<and>
         hedges (fst (add_quad q s)) ! (4 * f + k) =
           \<lparr>h_prev = 4 * f + (k + 3) mod 4, h_next = 4 * f + (k + 1) mod 4,
            h_opposite = NO_ID,
            h_vertex = the (snd (add_quad q s) (getVertex ((qs @ [q]) ! f) ((k + 1) mod 4))),
            h_face = f\<rparr>"
    if f: "f < length (qs @ [q])" and k: "k < 4" for f k
  proof (cases "f < length qs")
    case True
    with k len have i: "4 * f + k < length (hedges ?M)" by simp
    from old True k obtain n where n: "?mv (getVertex (qs ! f) ((k + 1) mod 4)) = Some n"
      by blast
    with ext have "mv3 (getVertex (qs ! f) ((k + 1) mod 4)) = Some n" by blast
    with n old True k i show ?thesis
      by (simp add: aq nth_append)
  next
    case False
    with f have feq: "f = length qs" by simp
    have qv: "mv3 (getVertex q j) = Some (?quad ! j)" if "j < 4" for j
    proof -
      from that have "j = 0 \<or> j = 1 \<or> j = 2 \<or> j = 3" by arith
      then show ?thesis using m0 m1 m2 m3 by auto
    qed
    have j4: "(k + 1) mod 4 < 4" by simp
    have pn: "(if k \<noteq> 0 then 4 * length qs + k - 1 else 4 * length qs + 3) = 4 * length qs + (k + 3) mod 4"
      "(if k \<noteq> 3 then 4 * length qs + k + 1 else 4 * length qs) = 4 * length qs + (k + 1) mod 4"
      using k by (auto simp: mod_if)
    have nh: "hedges (fst (add_quad q s)) ! (4 * f + k)
        = new_hedge ?quad (length qs) (4 * length qs) k"
      using k len flen by (simp add: aq feq nth_append)
    show ?thesis
      unfolding nh
      using qv [OF j4] pn
      by (simp add: aq feq new_hedge_def add.commute)
  qed
  show ?thesis
    unfolding built_inv_def
  proof (intro conjI allI impI)
    show "length (hedges (fst (add_quad q s))) = 4 * length (qs @ [q])"
      using len by (simp add: aq)
    show "length (faces (fst (add_quad q s))) = length (qs @ [q])"
      using flen by (simp add: aq)
    show "length (vertices (fst (add_quad q s))) \<le> 4 * length (qs @ [q])"
      using vlen3 by (simp add: aq)
    show "vmap_ok (vertices (fst (add_quad q s))) (snd (add_quad q s))"
      using s3 by (simp add: aq vmap_ok_def)
  next
    fix f k :: nat assume "f < length (qs @ [q])" "k < 4"
    from newh [OF this]
    show "snd (add_quad q s) (getVertex ((qs @ [q]) ! f) ((k + 1) mod 4)) \<noteq> None"
      and "hedges (fst (add_quad q s)) ! (4 * f + k) =
           \<lparr>h_prev = 4 * f + (k + 3) mod 4, h_next = 4 * f + (k + 1) mod 4,
            h_opposite = NO_ID,
            h_vertex = the (snd (add_quad q s) (getVertex ((qs @ [q]) ! f) ((k + 1) mod 4))),
            h_face = f\<rparr>"
      by simp_all
  qed
qed

lemma fold_add_quad_inv:
  "4 * length qs < NO_ID \<Longrightarrow>
   built_inv qs (fold add_quad qs (\<lparr>vertices = [], hedges = [], faces = []\<rparr>, Map.empty))"
proof (induction qs rule: rev_induct)
  case Nil
  then show ?case by (simp add: built_inv_def vmap_ok_def)
next
  case (snoc q qs)
  then have "built_inv qs (fold add_quad qs (\<lparr>vertices = [], hedges = [], faces = []\<rparr>, Map.empty))"
    by simp
  from add_quad_inv [OF this snoc.prems] show ?case by simp
qed

lemma slot_entries_append: "slot_entries (a @ b) = slot_entries a @ slot_entries b"
  by (simp add: slot_entries_def)

lemma slot_entries_update:
  assumes "s < length ps"
  shows "\<exists>a b. slot_entries ps = a @ slot_entries [ps ! s] @ b \<and>
               slot_entries (ps[s := p]) = a @ slot_entries [p] @ b"
proof -
  have "ps = take s ps @ [ps ! s] @ drop (Suc s) ps"
    using assms by (simp add: id_take_nth_drop)
  then have 1: "slot_entries ps = slot_entries (take s ps) @ slot_entries [ps ! s] @ slot_entries (drop (Suc s) ps)"
    by (metis slot_entries_append)
  have "ps[s := p] = take s ps @ [p] @ drop (Suc s) ps"
    using assms by (simp add: upd_conv_take_nth_drop)
  then have 2: "slot_entries (ps[s := p]) = slot_entries (take s ps) @ slot_entries [p] @ slot_entries (drop (Suc s) ps)"
    by (metis slot_entries_append)
  from 1 2 show ?thesis by blast
qed

lemma fill_new2old_entries:
  assumes "fill_new2old old2new is n2o = Some r"
    and "distinct (slot_entries n2o)" and "distinct is"
    and "set is \<inter> set (slot_entries n2o) = {}" and "NO_ID \<notin> set is"
  shows "distinct (slot_entries r) \<and> set (slot_entries r) \<subseteq> set (slot_entries n2o) \<union> set is
         \<and> length r = length n2o"
  using assms
proof (induction "is" arbitrary: n2o)
  case Nil
  then show ?case by simp
next
  case (Cons i "is")
  let ?ni = "old2new ! i"
  from Cons.prems(1) have lt: "?ni < length n2o"
    by (auto simp: Let_def split: if_splits)
  from Cons.prems(5) have i: "i \<noteq> NO_ID" by auto
  from Cons.prems(4) have inew: "i \<notin> set (slot_entries n2o)" by auto
  show ?case
  proof (cases "fst (n2o ! ?ni) = NO_ID")
    case True
    let ?n = "n2o[?ni := (i, snd (n2o ! ?ni))]"
    from Cons.prems(1) lt True have rec: "fill_new2old old2new is ?n = Some r"
      by (simp add: Let_def)
    obtain a b where ab: "slot_entries n2o = a @ slot_entries [n2o ! ?ni] @ b"
      "slot_entries ?n = a @ slot_entries [(i, snd (n2o ! ?ni))] @ b"
      using slot_entries_update [OF lt] by blast
    have e1: "slot_entries [n2o ! ?ni] = slot_entries [(NO_ID, snd (n2o ! ?ni))]"
      using True by (simp add: slot_entries_def)
    have d: "distinct (slot_entries ?n)"
      using Cons.prems(2) inew i unfolding ab e1 by (auto simp: slot_entries_def)
    have s: "set (slot_entries ?n) = insert i (set (slot_entries n2o))"
      using i unfolding ab e1 by (auto simp: slot_entries_def)
    have "distinct is" "set is \<inter> set (slot_entries ?n) = {}" "NO_ID \<notin> set is"
      using Cons.prems(3,4,5) s by auto
    from Cons.IH [OF rec d this] s show ?thesis by auto
  next
    case False
    from Cons.prems(1) lt False have snd: "snd (n2o ! ?ni) = NO_ID"
      by (auto simp: Let_def split: if_splits)
    let ?n = "n2o[?ni := (fst (n2o ! ?ni), i)]"
    from Cons.prems(1) lt False snd have rec: "fill_new2old old2new is ?n = Some r"
      by (simp add: Let_def)
    obtain a b where ab: "slot_entries n2o = a @ slot_entries [n2o ! ?ni] @ b"
      "slot_entries ?n = a @ slot_entries [(fst (n2o ! ?ni), i)] @ b"
      using slot_entries_update [OF lt] by blast
    have e1: "slot_entries [n2o ! ?ni] = slot_entries [(fst (n2o ! ?ni), NO_ID)]"
      using snd by (simp add: slot_entries_def)
    have d: "distinct (slot_entries ?n)"
      using Cons.prems(2) inew i unfolding ab e1 by (auto simp: slot_entries_def)
    have s: "set (slot_entries ?n) = insert i (set (slot_entries n2o))"
      using i unfolding ab e1 by (auto simp: slot_entries_def)
    have "distinct is" "set is \<inter> set (slot_entries ?n) = {}" "NO_ID \<notin> set is"
      using Cons.prems(3,4,5) s by auto
    from Cons.IH [OF rec d this] s show ?thesis by auto
  qed
qed

lemma set_opposites_length [simp]: "length (set_opposites p hs) = length hs"
  by (simp add: set_opposites_def Let_def)

lemma fold_set_opposites_length [simp]: "length (fold set_opposites ps hs) = length hs"
  by (induction ps arbitrary: hs) simp_all

lemma upd_opposite_fields:
  "h_next (hs[j := (hs ! j)\<lparr>h_opposite := v\<rparr>] ! i) = h_next (hs ! i) \<and>
   h_prev (hs[j := (hs ! j)\<lparr>h_opposite := v\<rparr>] ! i) = h_prev (hs ! i) \<and>
   h_vertex (hs[j := (hs ! j)\<lparr>h_opposite := v\<rparr>] ! i) = h_vertex (hs ! i) \<and>
   h_face (hs[j := (hs ! j)\<lparr>h_opposite := v\<rparr>] ! i) = h_face (hs ! i)"
  by (cases "i = j"; cases "j < length hs") (simp_all add: list_update_beyond not_less)

lemma set_opposites_fields:
  "h_next (set_opposites p hs ! i) = h_next (hs ! i) \<and>
   h_prev (set_opposites p hs ! i) = h_prev (hs ! i) \<and>
   h_vertex (set_opposites p hs ! i) = h_vertex (hs ! i) \<and>
   h_face (set_opposites p hs ! i) = h_face (hs ! i)"
  by (simp add: set_opposites_def Let_def upd_opposite_fields)

lemma fold_set_opposites_fields:
  "h_next (fold set_opposites ps hs ! i) = h_next (hs ! i) \<and>
   h_prev (fold set_opposites ps hs ! i) = h_prev (hs ! i) \<and>
   h_vertex (fold set_opposites ps hs ! i) = h_vertex (hs ! i) \<and>
   h_face (fold set_opposites ps hs ! i) = h_face (hs ! i)"
  by (induction ps arbitrary: hs) (simp_all add: set_opposites_fields)

lemma fold_set_opposites_sym:
  assumes "distinct (slot_entries ps)" and "\<forall>x \<in> set (slot_entries ps). x < length hs"
    and "length hs \<le> NO_ID" and "opp_sym hs"
    and "\<forall>x \<in> set (slot_entries ps). h_opposite (hs ! x) = NO_ID"
  shows "opp_sym (fold set_opposites ps hs)"
  using assms
proof (induction ps arbitrary: hs)
  case Nil
  then show ?case by simp
next
  case (Cons p ps)
  have ent: "slot_entries (p # ps) = slot_entries [p] @ slot_entries ps"
    by (simp add: slot_entries_def)
  have dps: "distinct (slot_entries ps)"
    using Cons.prems(1) unfolding ent by simp
  show ?case
  proof (cases "fst p \<noteq> NO_ID \<and> snd p \<noteq> NO_ID")
    case False
    then have same: "set_opposites p hs = hs"
      by (auto simp: set_opposites_def Let_def)
    have "opp_sym (fold set_opposites ps hs)"
      using Cons.prems dps unfolding ent by (intro Cons.IH) auto
    with same show ?thesis by simp
  next
    case True
    let ?h1 = "fst p" and ?h2 = "snd p"
    have e1: "slot_entries [p] = [?h1, ?h2]"
      using True by (simp add: slot_entries_def)
    have ne: "?h1 \<noteq> ?h2" and notin: "?h1 \<notin> set (slot_entries ps)" "?h2 \<notin> set (slot_entries ps)"
      using Cons.prems(1) unfolding ent e1 by auto
    have lt: "?h1 < length hs" "?h2 < length hs"
      using Cons.prems(2) unfolding ent e1 by auto
    have un: "h_opposite (hs ! ?h1) = NO_ID" "h_opposite (hs ! ?h2) = NO_ID"
      using Cons.prems(5) unfolding ent e1 by auto
    let ?hs1 = "hs[?h1 := (hs ! ?h1)\<lparr>h_opposite := ?h2\<rparr>]"
    let ?hs2 = "?hs1[?h2 := (?hs1 ! ?h2)\<lparr>h_opposite := ?h1\<rparr>]"
    have so: "set_opposites p hs = ?hs2"
      using True by (simp add: set_opposites_def Let_def)
    have opp2: "h_opposite (?hs2 ! he) =
        (if he = ?h2 then ?h1 else if he = ?h1 then ?h2 else h_opposite (hs ! he))"
      if "he < length hs" for he
      using that lt by (simp add: nth_list_update)
    have nopoint: "h_opposite (hs ! he) \<noteq> ?h1 \<and> h_opposite (hs ! he) \<noteq> ?h2"
      if "he < length hs" "h_opposite (hs ! he) \<noteq> NO_ID" for he
    proof -
      from Cons.prems(4) that have "h_opposite (hs ! h_opposite (hs ! he)) = he"
        by (simp add: opp_sym_def)
      moreover from that(1) Cons.prems(3) have "he \<noteq> NO_ID" by simp
      ultimately show ?thesis using un by auto
    qed
    have sym2: "opp_sym ?hs2"
      unfolding opp_sym_def
    proof (intro allI impI)
      fix he assume he: "he < length ?hs2" and o: "h_opposite (?hs2 ! he) \<noteq> NO_ID"
      from he have he': "he < length hs" by simp
      consider "he = ?h2" | "he = ?h1" | "he \<noteq> ?h1" "he \<noteq> ?h2" by blast
      then show "h_opposite (?hs2 ! he) < length ?hs2 \<and> h_opposite (?hs2 ! h_opposite (?hs2 ! he)) = he"
      proof cases
        case 1
        then show ?thesis using lt ne opp2 [OF lt(1)] opp2 [OF lt(2)] by simp
      next
        case 2
        then show ?thesis using lt ne opp2 [OF lt(1)] opp2 [OF lt(2)] by simp
      next
        case 3
        with opp2 [OF he'] have eq: "h_opposite (?hs2 ! he) = h_opposite (hs ! he)" by simp
        with o have o': "h_opposite (hs ! he) \<noteq> NO_ID" by simp
        from Cons.prems(4) he' o' have s: "h_opposite (hs ! he) < length hs"
          "h_opposite (hs ! h_opposite (hs ! he)) = he"
          by (simp_all add: opp_sym_def)
        from nopoint [OF he' o'] opp2 [OF s(1)] s eq show ?thesis by simp
      qed
    qed
    have "opp_sym (fold set_opposites ps ?hs2)"
    proof (intro Cons.IH dps sym2)
      show "\<forall>x \<in> set (slot_entries ps). x < length ?hs2"
        using Cons.prems(2) unfolding ent by simp
      show "length ?hs2 \<le> NO_ID" using Cons.prems(3) by simp
      show "\<forall>x \<in> set (slot_entries ps). h_opposite (?hs2 ! x) = NO_ID"
      proof
        fix x assume x: "x \<in> set (slot_entries ps)"
        with notin have "x \<noteq> ?h1" "x \<noteq> ?h2" by auto
        moreover from x Cons.prems(2) have "x < length hs" unfolding ent by simp
        moreover from x Cons.prems(5) have "h_opposite (hs ! x) = NO_ID" unfolding ent by simp
        ultimately show "h_opposite (?hs2 ! x) = NO_ID" using opp2 by simp
      qed
    qed
    with so show ?thesis by simp
  qed
qed

lemma slot_entries_replicate [simp]: "slot_entries (replicate m (NO_ID, NO_ID)) = []"
  by (induction m) (simp_all add: slot_entries_def)

lemma built_hedge:
  assumes "built_inv qs s" and "he < 4 * length qs"
  shows "h_prev (hedges (fst s) ! he) = 4 * (he div 4) + (he mod 4 + 3) mod 4"
    and "h_next (hedges (fst s) ! he) = 4 * (he div 4) + (he mod 4 + 1) mod 4"
    and "h_opposite (hedges (fst s) ! he) = NO_ID"
    and "h_face (hedges (fst s) ! he) = he div 4"
    and "snd s (getVertex (qs ! (he div 4)) ((he mod 4 + 1) mod 4)) = Some (h_vertex (hedges (fst s) ! he))"
proof -
  from assms(2) have f: "he div 4 < length qs" by simp
  have k: "he mod 4 < 4" by simp
  from assms(1) f k have
    "snd s (getVertex (qs ! (he div 4)) ((he mod 4 + 1) mod 4)) \<noteq> None \<and>
     hedges (fst s) ! (4 * (he div 4) + he mod 4) =
       \<lparr>h_prev = 4 * (he div 4) + (he mod 4 + 3) mod 4, h_next = 4 * (he div 4) + (he mod 4 + 1) mod 4,
        h_opposite = NO_ID,
        h_vertex = the (snd s (getVertex (qs ! (he div 4)) ((he mod 4 + 1) mod 4))),
        h_face = he div 4\<rparr>"
    unfolding built_inv_def by blast
  then have *: "snd s (getVertex (qs ! (he div 4)) ((he mod 4 + 1) mod 4)) \<noteq> None"
    "hedges (fst s) ! he =
       \<lparr>h_prev = 4 * (he div 4) + (he mod 4 + 3) mod 4, h_next = 4 * (he div 4) + (he mod 4 + 1) mod 4,
        h_opposite = NO_ID,
        h_vertex = the (snd s (getVertex (qs ! (he div 4)) ((he mod 4 + 1) mod 4))),
        h_face = he div 4\<rparr>"
    by simp_all
  show "h_prev (hedges (fst s) ! he) = 4 * (he div 4) + (he mod 4 + 3) mod 4"
    and "h_next (hedges (fst s) ! he) = 4 * (he div 4) + (he mod 4 + 1) mod 4"
    and "h_opposite (hedges (fst s) ! he) = NO_ID"
    and "h_face (hedges (fst s) ! he) = he div 4"
    by (simp_all add: *(2))
  from * show "snd s (getVertex (qs ! (he div 4)) ((he mod 4 + 1) mod 4)) = Some (h_vertex (hedges (fst s) ! he))"
    by auto
qed

lemma createMeshHalfEdges_success:
  assumes "createMeshHalfEdges gf_quads singularVertices = (0, M)"
  shows "\<exists>M0 mv uniques old2new new2old.
           fold add_quad gf_quads (\<lparr>vertices = [], hedges = [], faces = []\<rparr>, Map.empty) = (M0, mv) \<and>
           sort_unique_with_perm (map (vPair (hedges M0)) [0..<length (hedges M0)]) = (uniques, old2new) \<and>
           fill_new2old old2new [0..<length (hedges M0)] (replicate (length uniques) (NO_ID, NO_ID)) = Some new2old \<and>
           hedges M = fold set_opposites new2old (hedges M0) \<and> faces M = faces M0"
proof -
  obtain M0 mv where f: "fold add_quad gf_quads (\<lparr>vertices = [], hedges = [], faces = []\<rparr>, Map.empty) = (M0, mv)"
    by (metis surj_pair)
  obtain uniques old2new where s: "sort_unique_with_perm (map (vPair (hedges M0)) [0..<length (hedges M0)]) = (uniques, old2new)"
    by (metis surj_pair)
  from assms obtain new2old where
    "fill_new2old old2new [0..<length (hedges M0)] (replicate (length uniques) (NO_ID, NO_ID)) = Some new2old"
    "M = M0\<lparr>hedges := fold set_opposites new2old (hedges M0),
             vertices := fold (flag_singular mv) singularVertices (vertices M0)\<rparr>"
    unfolding createMeshHalfEdges_def Let_def f s prod.case
    by (auto split: option.splits)
  then have "fill_new2old old2new [0..<length (hedges M0)] (replicate (length uniques) (NO_ID, NO_ID)) = Some new2old \<and>
           hedges M = fold set_opposites new2old (hedges M0) \<and> faces M = faces M0"
    by simp
  with f s show ?thesis by blast
qed

lemma cycle4_prev: "(k::nat) < 4 \<Longrightarrow> ((k + 3) mod 4 + 1) mod 4 = k"
  by presburger

lemma cycle4_next: "(k::nat) < 4 \<Longrightarrow> ((k + 1) mod 4 + 3) mod 4 = k"
  by presburger

lemma slot_div_mod: "(r::nat) < 4 \<Longrightarrow> (4 * f + r) div 4 = f \<and> (4 * f + r) mod 4 = r"
  by simp

lemma next_prev_slot:
  fixes he :: nat
  shows "4 * ((4 * (he div 4) + (he mod 4 + 3) mod 4) div 4)
           + ((4 * (he div 4) + (he mod 4 + 3) mod 4) mod 4 + 1) mod 4 = he"
    and "4 * ((4 * (he div 4) + (he mod 4 + 1) mod 4) div 4)
           + ((4 * (he div 4) + (he mod 4 + 1) mod 4) mod 4 + 3) mod 4 = he"
proof -
  have k: "he mod 4 < 4" by simp
  have p: "(he mod 4 + 3) mod 4 < 4" and n: "(he mod 4 + 1) mod 4 < 4" by simp_all
  show "4 * ((4 * (he div 4) + (he mod 4 + 3) mod 4) div 4)
           + ((4 * (he div 4) + (he mod 4 + 3) mod 4) mod 4 + 1) mod 4 = he"
    unfolding slot_div_mod [OF p, THEN conjunct1] slot_div_mod [OF p, THEN conjunct2] cycle4_prev [OF k] by simp
  show "4 * ((4 * (he div 4) + (he mod 4 + 1) mod 4) div 4)
           + ((4 * (he div 4) + (he mod 4 + 1) mod 4) mod 4 + 3) mod 4 = he"
    unfolding slot_div_mod [OF n, THEN conjunct1] slot_div_mod [OF n, THEN conjunct2] cycle4_next [OF k] by simp
qed


text \<open>
  C2. After \<^verbatim>\<open>createMeshHalfEdges\<close> has returned 0 (on fewer than
  \<open>2^64 / 4\<close> quads, so that no index is \<^verbatim>\<open>NO_ID\<close>), every half-edge \<open>he\<close>
  satisfies \<open>next (prev he) = he\<close> and \<open>prev (next he) = he\<close>, and
  \<open>opposite (opposite he) = he\<close> whenever \<open>opposite he\<close> is not \<^verbatim>\<open>NO_ID\<close>.
\<close>

theorem half_edge_consistency:
  assumes "createMeshHalfEdges gf_quads singularVertices = (0, M)"
    and "4 * length gf_quads < NO_ID"
    and "he < length (hedges M)"
  shows "next M (prev M he) = he \<and> prev M (next M he) = he \<and>
         (opposite M he \<noteq> NO_ID \<longrightarrow> opposite M (opposite M he) = he)"
proof -
  from createMeshHalfEdges_success [OF assms(1)]
  obtain M0 mv uniques old2new new2old where
    f: "fold add_quad gf_quads (\<lparr>vertices = [], hedges = [], faces = []\<rparr>, Map.empty) = (M0, mv)"
    and su: "sort_unique_with_perm (map (vPair (hedges M0)) [0..<length (hedges M0)]) = (uniques, old2new)"
    and fill: "fill_new2old old2new [0..<length (hedges M0)] (replicate (length uniques) (NO_ID, NO_ID)) = Some new2old"
    and hM: "hedges M = fold set_opposites new2old (hedges M0)"
    by (elim exE conjE)
  from fold_add_quad_inv [OF assms(2)] f have inv: "built_inv gf_quads (M0, mv)" by simp
  then have len0: "length (hedges M0) = 4 * length gf_quads"
    by (simp add: built_inv_def)
  with hM assms(3) have he: "he < 4 * length gf_quads" by simp
  note b = built_hedge [OF inv, unfolded fst_conv snd_conv]
  have nx: "h_next (hedges M ! x) = 4 * (x div 4) + (x mod 4 + 1) mod 4"
    and pv: "h_prev (hedges M ! x) = 4 * (x div 4) + (x mod 4 + 3) mod 4"
    if "x < 4 * length gf_quads" for x
    using b(1,2) [OF that] by (simp_all add: hM fold_set_opposites_fields)
  from he have "he div 4 < length gf_quads" by simp
  then have "4 * (he div 4) + 4 \<le> 4 * length gf_quads" by simp
  moreover have "(he mod 4 + 3) mod 4 < 4" "(he mod 4 + 1) mod 4 < 4" by simp_all
  ultimately have p_lt: "4 * (he div 4) + (he mod 4 + 3) mod 4 < 4 * length gf_quads"
    and n_lt: "4 * (he div 4) + (he mod 4 + 1) mod 4 < 4 * length gf_quads"
    by linarith+
  have 1: "next M (prev M he) = he"
    unfolding next_def prev_def pv [OF he] nx [OF p_lt]
    by (rule next_prev_slot)
  have 2: "prev M (next M he) = he"
    unfolding next_def prev_def nx [OF he] pv [OF n_lt]
    by (rule next_prev_slot)
  have "distinct (slot_entries new2old) \<and>
        set (slot_entries new2old)
          \<subseteq> set (slot_entries (replicate (length uniques) (NO_ID, NO_ID))) \<union> set [0..<length (hedges M0)]
        \<and> length new2old = length (replicate (length uniques) (NO_ID, NO_ID))"
    using assms(2) len0 by (intro fill_new2old_entries [OF fill]) auto
  then have d: "distinct (slot_entries new2old)"
    and sub: "\<forall>x \<in> set (slot_entries new2old). x < length (hedges M0)"
    by auto
  have "opp_sym (fold set_opposites new2old (hedges M0))"
  proof (rule fold_set_opposites_sym [OF d sub])
    show "length (hedges M0) \<le> NO_ID" using assms(2) len0 by simp
    show "opp_sym (hedges M0)"
      using b(3) len0 by (simp add: opp_sym_def)
    show "\<forall>x \<in> set (slot_entries new2old). h_opposite (hedges M0 ! x) = NO_ID"
      using sub b(3) len0 by simp
  qed
  with hM assms(3) have 3: "opposite M he \<noteq> NO_ID \<longrightarrow> opposite M (opposite M he) = he"
    by (simp add: opp_sym_def opposite_def)
  from 1 2 3 show ?thesis by blast
qed

theorem half_edge_consistency_witness:
  "createMeshHalfEdges strip2 [101] = (0, strip2_mesh) \<and> 4 * length strip2 < NO_ID \<and>
   1 < length (hedges strip2_mesh) \<and>
   next strip2_mesh (prev strip2_mesh 1) = 1 \<and> prev strip2_mesh (next strip2_mesh 1) = 1 \<and>
   opposite strip2_mesh 1 = 7 \<and> opposite strip2_mesh (opposite strip2_mesh 1) = 1"
proof -
  have h2: "4 * length strip2 < NO_ID" by (simp add: strip2_def NO_ID_def)
  have h3: "1 < length (hedges strip2_mesh)" by (simp add: strip2_mesh_def)
  have o: "opposite strip2_mesh 1 = 7" by (simp add: mesh_eval strip2_mesh_def)
  from half_edge_consistency [OF strip2_built h2 h3] strip2_built h2 h3 o
  show ?thesis by (simp add: NO_ID_def)
qed

text \<open>
  The return code of \<^verbatim>\<open>createMeshHalfEdges\<close>. \<^verbatim>\<open>sort_unique_with_perm\<close> numbers
  the half-edges by the rank of their vertex pair; the loop filling \<^verbatim>\<open>new2old\<close>
  fails exactly when a number is met a third time; two half-edges have the same
  vertex pair exactly when their sides join the same two vertices.
\<close>

lemma sup_inner_spec:
  assumes "distinct ids" and "length ids = length inp" and "\<forall>p < length inp. ids ! p < length o2n"
  shows "ic \<le> fst (sup_inner inp ids ir ic cur o2n) \<and>
         (ic \<le> length inp \<longrightarrow> fst (sup_inner inp ids ir ic cur o2n) \<le> length inp) \<and>
         (\<forall>p. ic \<le> p \<and> p < fst (sup_inner inp ids ir ic cur o2n) \<longrightarrow> inp ! (ids ! p) = inp ! (ids ! ir)) \<and>
         (fst (sup_inner inp ids ir ic cur o2n) < length inp \<longrightarrow>
            inp ! (ids ! fst (sup_inner inp ids ir ic cur o2n)) \<noteq> inp ! (ids ! ir)) \<and>
         length (snd (sup_inner inp ids ir ic cur o2n)) = length o2n \<and>
         (\<forall>p < length inp. snd (sup_inner inp ids ir ic cur o2n) ! (ids ! p) =
            (if ic \<le> p \<and> p < fst (sup_inner inp ids ir ic cur o2n) then cur else o2n ! (ids ! p)))"
  using assms
proof (induction inp ids ir ic cur o2n rule: sup_inner.induct)
  case (1 inp ids ir ic cur o2n)
  show ?case
  proof (cases "ic < length inp \<and> inp ! (ids ! ic) = inp ! (ids ! ir)")
    case False
    have eq: "sup_inner inp ids ir ic cur o2n = (ic, o2n)"
      using False by (subst sup_inner.simps) auto
    from False show ?thesis unfolding eq by auto
  next
    case True
    let ?o = "o2n[ids ! ic := cur]"
    let ?r = "sup_inner inp ids ir (ic + 1) cur ?o"
    have eq: "sup_inner inp ids ir ic cur o2n = ?r"
      using True by (subst sup_inner.simps) simp
    have pre: "\<forall>p < length inp. ids ! p < length ?o" using "1.prems"(3) by simp
    note ih = "1.IH" [OF True "1.prems"(1,2) pre]
    from ih have a: "ic + 1 \<le> fst ?r" by blast
    from ih True have b: "fst ?r \<le> length inp" by simp
    from ih have c: "\<forall>p. ic + 1 \<le> p \<and> p < fst ?r \<longrightarrow> inp ! (ids ! p) = inp ! (ids ! ir)" by blast
    from ih have d: "fst ?r < length inp \<longrightarrow> inp ! (ids ! fst ?r) \<noteq> inp ! (ids ! ir)" by blast
    from ih have e: "length (snd ?r) = length o2n" by simp
    from ih have f: "\<forall>p < length inp. snd ?r ! (ids ! p) =
            (if ic + 1 \<le> p \<and> p < fst ?r then cur else ?o ! (ids ! p))" by blast
    have c': "\<forall>p. ic \<le> p \<and> p < fst ?r \<longrightarrow> inp ! (ids ! p) = inp ! (ids ! ir)"
    proof (intro allI impI)
      fix p assume p: "ic \<le> p \<and> p < fst ?r"
      show "inp ! (ids ! p) = inp ! (ids ! ir)"
      proof (cases "p = ic")
        case True
        with \<open>ic < length inp \<and> inp ! (ids ! ic) = inp ! (ids ! ir)\<close> show ?thesis by simp
      next
        case False
        with p c show ?thesis by simp
      qed
    qed
    have f': "\<forall>p < length inp. snd ?r ! (ids ! p) =
            (if ic \<le> p \<and> p < fst ?r then cur else o2n ! (ids ! p))"
    proof (intro allI impI)
      fix p assume p: "p < length inp"
      show "snd ?r ! (ids ! p) = (if ic \<le> p \<and> p < fst ?r then cur else o2n ! (ids ! p))"
      proof (cases "p = ic")
        case True
        from "1.prems"(3) p True have "ids ! ic < length o2n" by simp
        with f p True a show ?thesis by simp
      next
        case False
        from "1.prems"(1,2) p True False have "ids ! p \<noteq> ids ! ic"
          by (simp add: nth_eq_iff_index_eq)
        with f p False show ?thesis by auto
      qed
    qed
    from a b c' d e f' show ?thesis unfolding eq by simp
  qed
qed

lemma rank_step:
  fixes key :: "nat \<Rightarrow> 'a::linorder"
  assumes set: "set inp = key ` {..<n}"
    and sorted: "\<forall>p q. p \<le> q \<and> q < n \<longrightarrow> key p \<le> key q"
    and ir: "ir < ic" and ic: "ic < n"
    and grp: "\<forall>p. ir \<le> p \<and> p < ic \<longrightarrow> key p = key ir"
    and ne: "key ic \<noteq> key ir"
    and before: "\<forall>p < ir. key p < key ir"
  shows "rank_in inp (key ic) = rank_in inp (key ir) + 1" and "\<forall>p < ic. key p < key ic"
proof -
  from ir ic have "ir \<le> ic \<and> ic < n" by simp
  with sorted have "key ir \<le> key ic" by blast
  with ne have lt: "key ir < key ic" by simp
  have le_ir: "key p \<le> key ir" if "p < ic" for p
  proof (cases "p < ir")
    case True
    with before have "key p < key ir" by blast
    then show ?thesis by simp
  next
    case False
    then have "ir \<le> p \<and> p < ic" using that by simp
    with grp have "key p = key ir" by blast
    then show ?thesis by simp
  qed
  show below: "\<forall>p < ic. key p < key ic"
  proof (intro allI impI)
    fix p assume "p < ic"
    from le_ir [OF this] lt show "key p < key ic" by simp
  qed
  have irn: "ir < n" using ir ic by simp
  have mem: "key ir \<in> set inp" unfolding set using irn by blast
  have notin: "key ir \<notin> {y \<in> set inp. y < key ir}" by simp
  have fin: "finite {y \<in> set inp. y < key ir}" by simp
  have "{y \<in> set inp. y < key ic} = insert (key ir) {y \<in> set inp. y < key ir}"
  proof (rule set_eqI, rule iffI)
    fix y assume "y \<in> {y \<in> set inp. y < key ic}"
    then have y: "y \<in> set inp" "y < key ic" by simp_all
    from y(1) obtain p where p: "p < n" "y = key p" unfolding set by blast
    have "p < ic"
    proof (rule ccontr)
      assume "\<not> p < ic"
      then have "ic \<le> p \<and> p < n" using p(1) by simp
      with sorted have "key ic \<le> key p" by blast
      with y(2) p(2) show False by simp
    qed
    from le_ir [OF this] have "key p = key ir \<or> key p < key ir" by (auto simp: le_less)
    with p(2) y(1) show "y \<in> insert (key ir) {y \<in> set inp. y < key ir}" by blast
  next
    fix y assume "y \<in> insert (key ir) {y \<in> set inp. y < key ir}"
    then have "y = key ir \<or> (y \<in> set inp \<and> y < key ir)" by simp
    then show "y \<in> {y \<in> set inp. y < key ic}"
    proof
      assume "y = key ir"
      with mem lt show ?thesis by simp
    next
      assume "y \<in> set inp \<and> y < key ir"
      with lt show ?thesis by (auto intro: less_trans)
    qed
  qed
  then have "card {y \<in> set inp. y < key ic} = Suc (card {y \<in> set inp. y < key ir})"
    using card_insert_disjoint [OF fin notin] by simp
  then show "rank_in inp (key ic) = rank_in inp (key ir) + 1"
    by (simp add: rank_in_def)
qed

lemma sup_outer_spec:
  assumes "distinct ids" and "length ids = length inp" and "set ids = {..<length inp}"
    and "\<forall>p q. p \<le> q \<and> q < length inp \<longrightarrow> inp ! (ids ! p) \<le> inp ! (ids ! q)"
    and "length o2n = length inp" and "ir \<le> length inp"
    and "\<forall>p < ir. o2n ! (ids ! p) = rank_in inp (inp ! (ids ! p))"
    and "ir < length inp \<longrightarrow> cur = rank_in inp (inp ! (ids ! ir)) \<and>
           (\<forall>p < ir. inp ! (ids ! p) < inp ! (ids ! ir))"
  shows "\<forall>p < length inp. sup_outer inp ids ir cur o2n ! (ids ! p) = rank_in inp (inp ! (ids ! p))"
  using assms
proof (induction inp ids ir cur o2n rule: sup_outer.induct)
  case (1 inp ids ir cur o2n)
  let ?n = "length inp"
  let ?key = "\<lambda>p. inp ! (ids ! p)"
  show ?case
  proof (cases "ir < ?n")
    case False
    with "1.prems"(6) have "ir = ?n" by simp
    with "1.prems"(7) False show ?thesis by (subst sup_outer.simps) simp
  next
    case True
    let ?r = "sup_inner inp ids ir ir cur o2n"
    have idx: "\<forall>p < ?n. ids ! p < length o2n"
    proof (intro allI impI)
      fix p assume "p < ?n"
      with "1.prems"(2) have "ids ! p \<in> set ids" by simp
      with "1.prems"(3,5) show "ids ! p < length o2n" by simp
    qed
    note sp = sup_inner_spec [OF "1.prems"(1,2) idx, of ir ir cur]
    note sp1 = sp [THEN conjunct1]
    note sp2 = sp [THEN conjunct2, THEN conjunct1]
    note grp = sp [THEN conjunct2, THEN conjunct2, THEN conjunct1]
    note stop = sp [THEN conjunct2, THEN conjunct2, THEN conjunct2, THEN conjunct1]
    note sp5 = sp [THEN conjunct2, THEN conjunct2, THEN conjunct2, THEN conjunct2, THEN conjunct1]
    note val = sp [THEN conjunct2, THEN conjunct2, THEN conjunct2, THEN conjunct2, THEN conjunct2]
    from True have "ir \<le> ?n" by simp
    with sp2 have le: "fst ?r \<le> ?n" by blast
    from sp5 "1.prems"(5) have len: "length (snd ?r) = ?n" by (rule trans)
    have gt: "ir < fst ?r"
    proof (rule ccontr)
      assume "\<not> ir < fst ?r"
      with sp1 have eq: "fst ?r = ir" by simp
      from stop True have "?key (fst ?r) \<noteq> ?key ir" unfolding eq by blast
      then show False unfolding eq by simp
    qed
    have keyset: "set inp = ?key ` {..<?n}"
    proof -
      have "set inp = (\<lambda>k. inp ! k) ` {..<?n}"
        by (auto simp: in_set_conv_nth)
      also have "{..<?n} = (\<lambda>p. ids ! p) ` {..<?n}"
        using "1.prems"(2,3) nth_image [of ?n ids] by (simp add: lessThan_atLeast0)
      finally show ?thesis by (simp add: image_image)
    qed
    from "1.prems"(8) True have cur: "cur = rank_in inp (?key ir)"
      and before: "\<forall>p < ir. ?key p < ?key ir" by simp_all
    have sofar: "\<forall>p < fst ?r. snd ?r ! (ids ! p) = rank_in inp (?key p)"
    proof (intro allI impI)
      fix p assume p: "p < fst ?r"
      with le have pn: "p < ?n" by simp
      show "snd ?r ! (ids ! p) = rank_in inp (?key p)"
      proof (cases "ir \<le> p")
        case True
        from val pn have v: "snd ?r ! (ids ! p) = (if ir \<le> p \<and> p < fst ?r then cur else o2n ! (ids ! p))"
          by blast
        from grp True p have "?key p = ?key ir" by blast
        with v True p cur show ?thesis by simp
      next
        case False
        from val pn have v: "snd ?r ! (ids ! p) = (if ir \<le> p \<and> p < fst ?r then cur else o2n ! (ids ! p))"
          by blast
        from False have "p < ir" by simp
        with "1.prems"(7) have "o2n ! (ids ! p) = rank_in inp (?key p)" by blast
        with v False show ?thesis by simp
      qed
    qed
    have nxt: "fst ?r < ?n \<longrightarrow> cur + 1 = rank_in inp (?key (fst ?r)) \<and>
           (\<forall>p < fst ?r. ?key p < ?key (fst ?r))"
    proof
      assume lt: "fst ?r < ?n"
      with stop have ne: "?key (fst ?r) \<noteq> ?key ir" by blast
      from rank_step [of inp ?key ?n ir "fst ?r", OF keyset "1.prems"(4) gt lt grp ne before] cur
      show "cur + 1 = rank_in inp (?key (fst ?r)) \<and> (\<forall>p < fst ?r. ?key p < ?key (fst ?r))"
        by simp
    qed
    have "\<forall>p < ?n. sup_outer inp ids (fst ?r) (cur + 1) (snd ?r) ! (ids ! p) = rank_in inp (?key p)"
      by (rule "1.IH" [OF True "1.prems"(1,2,3,4) len le sofar nxt])
    with True show ?thesis by (subst sup_outer.simps) simp
  qed
qed

lemma sorted_remdups_adj_distinct:
  fixes xs :: "('a::linorder) list"
  shows "sorted xs \<Longrightarrow> distinct (remdups_adj xs)"
proof (induction xs rule: remdups_adj.induct)
  case 1
  then show ?case by simp
next
  case (2 x)
  then show ?case by simp
next
  case (3 x y xs)
  show ?case
  proof (cases "x = y")
    case True
    with 3 show ?thesis by simp
  next
    case False
    from "3.prems" have s: "sorted (y # xs)" by simp
    from 3(2) [OF False s] have d: "distinct (remdups_adj (y # xs))" .
    from "3.prems" False have "x < y" by auto
    moreover from "3.prems" have "\<forall>z \<in> set (y # xs). y \<le> z" by simp
    ultimately have "x \<notin> set (y # xs)" by auto
    then have "x \<notin> set (remdups_adj (y # xs))" by simp
    with d False show ?thesis by simp
  qed
qed

lemma rank_in_less:
  assumes "x \<in> set inp"
  shows "rank_in inp x < card (set inp)"
proof -
  have "{y \<in> set inp. y < x} \<subset> set inp" using assms by auto
  then show ?thesis unfolding rank_in_def by (simp add: psubset_card_mono)
qed

lemma rank_in_mono:
  assumes "x \<in> set inp" and "x < y"
  shows "rank_in inp x < rank_in inp y"
proof -
  have "{z \<in> set inp. z < x} \<subset> {z \<in> set inp. z < y}" using assms by auto
  then show ?thesis unfolding rank_in_def by (simp add: psubset_card_mono)
qed

lemma rank_in_inj:
  assumes "x \<in> set inp" and "y \<in> set inp"
  shows "rank_in inp x = rank_in inp y \<longleftrightarrow> x = y"
proof
  assume eq: "rank_in inp x = rank_in inp y"
  show "x = y"
  proof (rule ccontr)
    assume "x \<noteq> y"
    then have "x < y \<or> y < x" by auto
    then show False
    proof
      assume "x < y"
      from rank_in_mono [OF assms(1) this] eq show False by simp
    next
      assume "y < x"
      from rank_in_mono [OF assms(2) this] eq show False by simp
    qed
  qed
qed simp

lemma sort_unique_with_perm_spec:
  fixes inp :: "('a::linorder) list"
  assumes "sort_unique_with_perm inp = (uniques, old2new)"
  shows "length uniques = card (set inp)"
    and "\<forall>i < length inp. old2new ! i = rank_in inp (inp ! i)"
proof -
  let ?n = "length inp"
  let ?ids = "sort_key (\<lambda>k. inp ! k) [0..<?n]"
  let ?key = "\<lambda>p. inp ! (?ids ! p)"
  from assms have u: "uniques = remdups_adj (sort inp)"
    and o: "old2new = sup_outer inp ?ids 0 0 (replicate ?n 0)"
    by (simp_all add: sort_unique_with_perm_def Let_def)
  have "distinct uniques" unfolding u by (rule sorted_remdups_adj_distinct) simp
  then have "card (set uniques) = length uniques" by (rule distinct_card)
  then show "length uniques = card (set inp)" unfolding u by simp
  have d: "distinct ?ids" by simp
  have l: "length ?ids = ?n" by simp
  have s: "set ?ids = {..<?n}" by (simp add: lessThan_atLeast0)
  have "sorted (map (\<lambda>k. inp ! k) ?ids)" by (rule sorted_sort_key)
  then have srt: "\<forall>p q. p \<le> q \<and> q < ?n \<longrightarrow> ?key p \<le> ?key q"
    by (simp add: sorted_iff_nth_mono)
  have keyset: "set inp = ?key ` {..<?n}"
  proof -
    have "set inp = (\<lambda>k. inp ! k) ` {..<?n}"
      by (auto simp: in_set_conv_nth)
    also have "{..<?n} = (\<lambda>p. ?ids ! p) ` {..<?n}"
      using l s nth_image [of ?n ?ids] by (simp add: lessThan_atLeast0)
    finally show ?thesis by (simp add: image_image)
  qed
  have start: "0 < ?n \<longrightarrow> 0 = rank_in inp (?key 0) \<and> (\<forall>p < (0::nat). ?key p < ?key 0)"
  proof
    assume pos: "0 < ?n"
    have "{y \<in> set inp. y < ?key 0} = {}"
    proof (rule ccontr)
      assume "{y \<in> set inp. y < ?key 0} \<noteq> {}"
      then obtain y where y: "y \<in> set inp" "y < ?key 0" by blast
      from y(1) obtain p where p: "p < ?n" "y = ?key p" unfolding keyset by blast
      from srt p(1) have "?key 0 \<le> ?key p" by simp
      with y(2) p(2) show False by simp
    qed
    then show "0 = rank_in inp (?key 0) \<and> (\<forall>p < (0::nat). ?key p < ?key 0)"
      by (simp add: rank_in_def)
  qed
  have res: "\<forall>p < ?n. sup_outer inp ?ids 0 0 (replicate ?n 0) ! (?ids ! p) = rank_in inp (?key p)"
    by (rule sup_outer_spec [OF d l s srt _ _ _ start]) simp_all
  show "\<forall>i < length inp. old2new ! i = rank_in inp (inp ! i)"
  proof (intro allI impI)
    fix i assume "i < ?n"
    then have "i \<in> set ?ids" unfolding s by simp
    then obtain p where p: "p < length ?ids" "?ids ! p = i" unfolding in_set_conv_nth by blast
    from p(1) have "p < ?n" by simp
    with res have "sup_outer inp ?ids 0 0 (replicate ?n 0) ! (?ids ! p) = rank_in inp (?key p)" by blast
    then show "old2new ! i = rank_in inp (inp ! i)" unfolding o p(2) .
  qed
qed

lemma old2new_eq_iff:
  fixes inp :: "('a::linorder) list"
  assumes "sort_unique_with_perm inp = (uniques, old2new)" and "i < length inp" and "j < length inp"
  shows "old2new ! i < length uniques" and "old2new ! i = old2new ! j \<longleftrightarrow> inp ! i = inp ! j"
proof -
  note sp = sort_unique_with_perm_spec [OF assms(1)]
  from assms(2,3) have m: "inp ! i \<in> set inp" "inp ! j \<in> set inp" by simp_all
  from sp(2) assms(2,3) have r: "old2new ! i = rank_in inp (inp ! i)" "old2new ! j = rank_in inp (inp ! j)"
    by simp_all
  from rank_in_less [OF m(1)] show "old2new ! i < length uniques" unfolding r sp(1) .
  from rank_in_inj [OF m] show "old2new ! i = old2new ! j \<longleftrightarrow> inp ! i = inp ! j" unfolding r .
qed

lemma slot_fill_le: "slot_fill p \<le> 2"
  by (simp add: slot_fill_def)

lemma slot_count_Cons:
  "slot_count o2n (i # is) s = (if o2n ! i = s then 1 else 0) + slot_count o2n is s"
  by (simp add: slot_count_def)

lemma fill_new2old_None_iff:
  assumes "\<forall>i \<in> set is. o2n ! i < length n2o \<and> i \<noteq> NO_ID"
    and "\<forall>s < length n2o. fst (n2o ! s) = NO_ID \<longrightarrow> snd (n2o ! s) = NO_ID"
  shows "fill_new2old o2n is n2o = None \<longleftrightarrow>
         (\<exists>s < length n2o. 2 < slot_fill (n2o ! s) + slot_count o2n is s)"
  using assms
proof (induction "is" arbitrary: n2o)
  case Nil
  have "\<not> 2 < slot_fill (n2o ! s)" for s using slot_fill_le [of "n2o ! s"] by simp
  then show ?case by (simp add: slot_count_def)
next
  case (Cons i "is")
  let ?ni = "o2n ! i"
  from Cons.prems(1) have ni: "?ni < length n2o" and i: "i \<noteq> NO_ID" by simp_all
  from Cons.prems(1) have rest: "\<forall>j \<in> set is. o2n ! j < length n2o \<and> j \<noteq> NO_ID" by simp
  consider (first) "fst (n2o ! ?ni) = NO_ID"
    | (second) "fst (n2o ! ?ni) \<noteq> NO_ID" "snd (n2o ! ?ni) = NO_ID"
    | (full) "fst (n2o ! ?ni) \<noteq> NO_ID" "snd (n2o ! ?ni) \<noteq> NO_ID"
    by blast
  then show ?case
  proof cases
    case first
    let ?n' = "n2o[?ni := (i, snd (n2o ! ?ni))]"
    from first Cons.prems(2) ni have sn: "snd (n2o ! ?ni) = NO_ID" by blast
    have eq: "fill_new2old o2n (i # is) n2o = fill_new2old o2n is ?n'"
      using ni first by (simp add: Let_def)
    have p1: "\<forall>j \<in> set is. o2n ! j < length ?n' \<and> j \<noteq> NO_ID" using rest by simp
    have p2: "\<forall>s < length ?n'. fst (?n' ! s) = NO_ID \<longrightarrow> snd (?n' ! s) = NO_ID"
    proof (intro allI impI)
      fix s assume s: "s < length ?n'" and f: "fst (?n' ! s) = NO_ID"
      show "snd (?n' ! s) = NO_ID"
      proof (cases "s = ?ni")
        case True
        with f ni i show ?thesis by simp
      next
        case False
        with s f Cons.prems(2) show ?thesis by simp
      qed
    qed
    have cnt: "slot_fill (?n' ! s) + slot_count o2n is s = slot_fill (n2o ! s) + slot_count o2n (i # is) s"
      if "s < length n2o" for s
    proof (cases "s = ?ni")
      case True
      with ni i first sn show ?thesis by (simp add: slot_fill_def slot_count_Cons)
    next
      case False
      then show ?thesis by (simp add: slot_count_Cons)
    qed
    have "fill_new2old o2n is ?n' = None \<longleftrightarrow>
         (\<exists>s < length ?n'. 2 < slot_fill (?n' ! s) + slot_count o2n is s)"
      by (rule Cons.IH [OF p1 p2])
    also have "\<dots> \<longleftrightarrow> (\<exists>s < length n2o. 2 < slot_fill (n2o ! s) + slot_count o2n (i # is) s)"
      using cnt by auto
    finally show ?thesis unfolding eq .
  next
    case second
    let ?n' = "n2o[?ni := (fst (n2o ! ?ni), i)]"
    have eq: "fill_new2old o2n (i # is) n2o = fill_new2old o2n is ?n'"
      using ni second by (simp add: Let_def)
    have p1: "\<forall>j \<in> set is. o2n ! j < length ?n' \<and> j \<noteq> NO_ID" using rest by simp
    have p2: "\<forall>s < length ?n'. fst (?n' ! s) = NO_ID \<longrightarrow> snd (?n' ! s) = NO_ID"
    proof (intro allI impI)
      fix s assume s: "s < length ?n'" and f: "fst (?n' ! s) = NO_ID"
      show "snd (?n' ! s) = NO_ID"
      proof (cases "s = ?ni")
        case True
        with f ni second show ?thesis by simp
      next
        case False
        with s f Cons.prems(2) show ?thesis by simp
      qed
    qed
    have cnt: "slot_fill (?n' ! s) + slot_count o2n is s = slot_fill (n2o ! s) + slot_count o2n (i # is) s"
      if "s < length n2o" for s
    proof (cases "s = ?ni")
      case True
      with ni i second show ?thesis by (simp add: slot_fill_def slot_count_Cons)
    next
      case False
      then show ?thesis by (simp add: slot_count_Cons)
    qed
    have "fill_new2old o2n is ?n' = None \<longleftrightarrow>
         (\<exists>s < length ?n'. 2 < slot_fill (?n' ! s) + slot_count o2n is s)"
      by (rule Cons.IH [OF p1 p2])
    also have "\<dots> \<longleftrightarrow> (\<exists>s < length n2o. 2 < slot_fill (n2o ! s) + slot_count o2n (i # is) s)"
      using cnt by auto
    finally show ?thesis unfolding eq .
  next
    case full
    have eq: "fill_new2old o2n (i # is) n2o = None"
      using ni full by (simp add: Let_def)
    from full have "slot_fill (n2o ! ?ni) = 2" by (simp add: slot_fill_def)
    then have "2 < slot_fill (n2o ! ?ni) + slot_count o2n (i # is) ?ni"
      by (simp add: slot_count_Cons)
    with ni have "\<exists>s < length n2o. 2 < slot_fill (n2o ! s) + slot_count o2n (i # is) s" by blast
    with eq show ?thesis by simp
  qed
qed

lemma fill_new2old_fresh:
  assumes "\<forall>i \<in> set is. o2n ! i < m \<and> i \<noteq> NO_ID"
  shows "fill_new2old o2n is (replicate m (NO_ID, NO_ID)) = None \<longleftrightarrow>
         (\<exists>s < m. 2 < slot_count o2n is s)"
proof -
  have "fill_new2old o2n is (replicate m (NO_ID, NO_ID)) = None \<longleftrightarrow>
         (\<exists>s < length (replicate m (NO_ID, NO_ID)).
            2 < slot_fill (replicate m (NO_ID, NO_ID) ! s) + slot_count o2n is s)"
    by (rule fill_new2old_None_iff) (use assms in simp_all)
  moreover have "slot_fill (replicate m (NO_ID, NO_ID) ! s) = 0" if "s < m" for s
    using that by (simp add: slot_fill_def)
  ultimately show ?thesis by auto
qed

lemma upt_0_4: "[0..<4] = [0, 1, 2, 3::nat]"
  by (simp add: upt_rec)

lemma same_edge_refl: "same_edge e e"
  by (simp add: same_edge_def)

lemma same_edge_sym: "same_edge e e' \<Longrightarrow> same_edge e' e"
  by (cases e; cases e') (auto simp: same_edge_def)

lemma same_edge_trans: "same_edge e e' \<Longrightarrow> same_edge e' e'' \<Longrightarrow> same_edge e e''"
  by (cases e; cases e'; cases e'') (auto simp: same_edge_def)

lemma same_edge_cong: "same_edge e e' \<Longrightarrow> same_edge x e \<longleftrightarrow> same_edge x e'"
  using same_edge_sym same_edge_trans by blast

lemma proper_quad_sides:
  assumes "proper_quad q"
  shows "length (filter (\<lambda>k. same_edge (quad_side q k) e) [0..<4]) = (if has_edge q e then 1 else 0)"
proof -
  obtain a b c d where q: "q = (a, b, c, d)" by (metis surj_pair)
  obtain x y where e: "e = (x, y)" by (metis surj_pair)
  from assms have d: "a \<noteq> b" "a \<noteq> c" "a \<noteq> d" "b \<noteq> c" "b \<noteq> d" "c \<noteq> d"
    unfolding proper_quad_def q upt_0_4 by auto
  define P where "P = (\<lambda>k. same_edge (quad_side q k) e)"
  have s: "P 0 = same_edge (a, b) (x, y)" "P 1 = same_edge (b, c) (x, y)"
    "P 2 = same_edge (c, d) (x, y)" "P 3 = same_edge (d, a) (x, y)"
    unfolding P_def quad_side_def q e by simp_all
  have x01: "\<not> (P 0 \<and> P 1)" unfolding s same_edge_def using d by auto
  have x02: "\<not> (P 0 \<and> P 2)" unfolding s same_edge_def using d by auto
  have x03: "\<not> (P 0 \<and> P 3)" unfolding s same_edge_def using d by auto
  have x12: "\<not> (P 1 \<and> P 2)" unfolding s same_edge_def using d by auto
  have x13: "\<not> (P 1 \<and> P 3)" unfolding s same_edge_def using d by auto
  have x23: "\<not> (P 2 \<and> P 3)" unfolding s same_edge_def using d by auto
  have f: "length (filter P [0, 1, 2, 3]) =
           (if P 0 then 1 else 0) + (if P 1 then 1 else 0) + (if P 2 then 1 else 0) + (if P 3 then 1 else 0)"
    by simp
  have h: "list_ex P [0, 1, 2, 3] = (P 0 \<or> P 1 \<or> P 2 \<or> P 3)"
    by simp
  have "length (filter P [0, 1, 2, 3]) = (if list_ex P [0, 1, 2, 3] then 1 else 0)"
    unfolding f h using x01 x02 x03 x12 x13 x23
    by (cases "P 0"; cases "P 1"; cases "P 2"; cases "P 3") simp_all
  then show ?thesis unfolding has_edge_def upt_0_4 P_def .
qed

lemma hedge_side_count:
  assumes "\<forall>q \<in> set qs. proper_quad q"
  shows "length (filter (\<lambda>i. same_edge (hedge_side qs i) e) [0..<4 * length qs]) = quads_sharing qs e"
  using assms
proof (induction qs rule: rev_induct)
  case Nil
  then show ?case by (simp add: quads_sharing_def)
next
  case (snoc q qs)
  let ?n = "4 * length qs"
  from snoc.prems have pq: "proper_quad q" and rest: "\<forall>q \<in> set qs. proper_quad q" by simp_all
  have split: "[0..<4 * length (qs @ [q])] = [0..<?n] @ map (\<lambda>k. k + ?n) [0..<4]"
  proof -
    have "[0..<4 * length (qs @ [q])] = [0..<?n + 4]" by (simp add: add.commute)
    also have "\<dots> = [0..<?n] @ [?n..<?n + 4]" by (rule upt_add_eq_append) simp
    also have "[?n..<?n + 4] = map (\<lambda>k. k + ?n) [0..<4]"
      using map_add_upt [of ?n 4] by (simp add: add.commute)
    finally show ?thesis .
  qed
  have old: "hedge_side (qs @ [q]) i = hedge_side qs i" if "i \<in> set [0..<?n]" for i
  proof -
    from that have "i div 4 < length qs" by simp
    then show ?thesis by (simp add: hedge_side_def nth_append)
  qed
  have new: "hedge_side (qs @ [q]) (k + ?n) = quad_side q k" if "k \<in> set [0..<4]" for k
  proof -
    from that have k: "k < 4" by simp
    then have "(k + ?n) div 4 = length qs" "(k + ?n) mod 4 = k" by simp_all
    then show ?thesis by (simp add: hedge_side_def)
  qed
  have a: "filter (\<lambda>i. same_edge (hedge_side (qs @ [q]) i) e) [0..<?n]
           = filter (\<lambda>i. same_edge (hedge_side qs i) e) [0..<?n]"
    by (rule filter_cong [OF refl]) (simp only: old)
  have b: "filter ((\<lambda>i. same_edge (hedge_side (qs @ [q]) i) e) \<circ> (\<lambda>k. k + ?n)) [0..<4]
           = filter (\<lambda>k. same_edge (quad_side q k) e) [0..<4]"
    by (rule filter_cong [OF refl]) (simp only: new comp_def)
  let ?P = "\<lambda>i. same_edge (hedge_side (qs @ [q]) i) e"
  have "length (filter ?P [0..<4 * length (qs @ [q])])
        = length (filter ?P ([0..<?n] @ map (\<lambda>k. k + ?n) [0..<4]))"
    by (simp only: split)
  also have "\<dots> = length (filter ?P [0..<?n]) + length (filter (?P \<circ> (\<lambda>k. k + ?n)) [0..<4])"
    by (simp only: filter_append filter_map length_append length_map)
  also have "\<dots> = length (filter (\<lambda>i. same_edge (hedge_side qs i) e) [0..<?n])
          + length (filter (\<lambda>k. same_edge (quad_side q k) e) [0..<4])"
    by (simp only: a b)
  also have "\<dots> = quads_sharing qs e + (if has_edge q e then 1 else 0)"
    unfolding snoc.IH [OF rest] proper_quad_sides [OF pq] ..
  also have "\<dots> = quads_sharing (qs @ [q]) e"
    by (simp add: quads_sharing_def)
  finally show ?case .
qed

lemma has_edge_hedge_side:
  assumes "q \<in> set qs" and "has_edge q e"
  shows "\<exists>i < 4 * length qs. same_edge (hedge_side qs i) e"
proof -
  from assms(1) obtain f where f: "f < length qs" "qs ! f = q" unfolding in_set_conv_nth by blast
  from assms(2) obtain k where k: "k < 4" "same_edge (quad_side q k) e"
    unfolding has_edge_def list_ex_iff by auto
  from k(1) have dm: "(4 * f + k) div 4 = f" "(4 * f + k) mod 4 = k" by simp_all
  from f(1) k(1) have "4 * f + k < 4 * length qs" by simp
  moreover have "same_edge (hedge_side qs (4 * f + k)) e"
    unfolding hedge_side_def dm f(2) by (rule k(2))
  ultimately show ?thesis by blast
qed

lemma built_side:
  assumes "built_inv qs s" and "i < 4 * length qs"
  shows "snd s (fst (hedge_side qs i)) = Some (h_vertex (hedges (fst s) ! h_prev (hedges (fst s) ! i)))"
    and "snd s (snd (hedge_side qs i)) = Some (h_vertex (hedges (fst s) ! i))"
proof -
  let ?p = "4 * (i div 4) + (i mod 4 + 3) mod 4"
  have k: "i mod 4 < 4" by simp
  have r: "(i mod 4 + 3) mod 4 < 4" by simp
  from assms(2) have "i div 4 < length qs" by simp
  with r have p: "?p < 4 * length qs" by simp
  have hp: "h_prev (hedges (fst s) ! i) = ?p" by (rule built_hedge(1) [OF assms])
  from built_hedge(5) [OF assms(1) p]
  have "snd s (getVertex (qs ! (i div 4)) (i mod 4)) = Some (h_vertex (hedges (fst s) ! ?p))"
    unfolding slot_div_mod [OF r, THEN conjunct1] slot_div_mod [OF r, THEN conjunct2] cycle4_prev [OF k] .
  then show "snd s (fst (hedge_side qs i)) = Some (h_vertex (hedges (fst s) ! h_prev (hedges (fst s) ! i)))"
    unfolding hp hedge_side_def quad_side_def fst_conv .
  from built_hedge(5) [OF assms]
  show "snd s (snd (hedge_side qs i)) = Some (h_vertex (hedges (fst s) ! i))"
    unfolding hedge_side_def quad_side_def snd_conv .
qed

lemma vPair_eq_iff:
  "vPair hs i = vPair hs j \<longleftrightarrow>
     (h_vertex (hs ! h_prev (hs ! i)) = h_vertex (hs ! h_prev (hs ! j)) \<and> h_vertex (hs ! i) = h_vertex (hs ! j)) \<or>
     (h_vertex (hs ! h_prev (hs ! i)) = h_vertex (hs ! j) \<and> h_vertex (hs ! i) = h_vertex (hs ! h_prev (hs ! j)))"
  unfolding vPair_def Let_def by auto

lemma vmap_eq_iff:
  assumes "vmap_ok vs mv" and "mv a = Some n" and "mv b = Some m"
  shows "n = m \<longleftrightarrow> a = b"
proof
  assume "n = m"
  with assms show "a = b" unfolding vmap_ok_def by blast
next
  assume "a = b"
  with assms(2,3) show "n = m" by simp
qed

lemma built_vPair_eq:
  assumes "built_inv qs s" and "i < 4 * length qs" and "j < 4 * length qs"
  shows "vPair (hedges (fst s)) i = vPair (hedges (fst s)) j
         \<longleftrightarrow> same_edge (hedge_side qs i) (hedge_side qs j)"
proof -
  from assms(1) have vm: "vmap_ok (vertices (fst s)) (snd s)" unfolding built_inv_def by blast
  note si = built_side [OF assms(1,2)]
  note sj = built_side [OF assms(1,3)]
  have "same_edge (hedge_side qs i) (hedge_side qs j) \<longleftrightarrow>
        (fst (hedge_side qs i) = fst (hedge_side qs j) \<and> snd (hedge_side qs i) = snd (hedge_side qs j)) \<or>
        (fst (hedge_side qs i) = snd (hedge_side qs j) \<and> snd (hedge_side qs i) = fst (hedge_side qs j))"
    unfolding same_edge_def by (auto simp: prod_eq_iff)
  then show ?thesis
    unfolding vPair_eq_iff
      vmap_eq_iff [OF vm si(1) sj(1)] vmap_eq_iff [OF vm si(2) sj(2)]
      vmap_eq_iff [OF vm si(1) sj(2)] vmap_eq_iff [OF vm si(2) sj(1)]
    by simp
qed

lemma quads_sharing_cong:
  assumes "\<forall>q \<in> set qs. proper_quad q" and "same_edge e e'"
  shows "quads_sharing qs e = quads_sharing qs e'"
proof -
  have "filter (\<lambda>i. same_edge (hedge_side qs i) e) [0..<4 * length qs]
        = filter (\<lambda>i. same_edge (hedge_side qs i) e') [0..<4 * length qs]"
    by (rule filter_cong [OF refl]) (rule same_edge_cong [OF assms(2)])
  then show ?thesis unfolding hedge_side_count [OF assms(1), symmetric] by simp
qed

text \<open>
  C6. \<^verbatim>\<open>createMeshHalfEdges\<close> returns \<open>- 1\<close> when some edge is shared by more than two
  quads and \<open>0\<close> when every edge is shared by at most two, for quads with four
  distinct corners (and fewer than \<open>NO_ID / 4\<close> of them, so that no half-edge
  index is the sentinel). An edge is an unordered pair of vertices; a quad
  shares it when one of its four sides joins the two vertices.
\<close>

theorem createMeshHalfEdges_status:
  assumes "\<forall>q \<in> set qs. proper_quad q" and "4 * length qs < NO_ID"
  shows "fst (createMeshHalfEdges qs singularVertices) =
         (if \<exists>e. 2 < quads_sharing qs e then - 1 else 0)"
proof -
  let ?n = "4 * length qs"
  obtain M0 mv where f: "fold add_quad qs (\<lparr>vertices = [], hedges = [], faces = []\<rparr>, Map.empty) = (M0, mv)"
    by (metis surj_pair)
  obtain uniques o2n where s: "sort_unique_with_perm (map (vPair (hedges M0)) [0..<length (hedges M0)]) = (uniques, o2n)"
    by (metis surj_pair)
  let ?vp = "map (vPair (hedges M0)) [0..<length (hedges M0)]"
  from fold_add_quad_inv [OF assms(2)] have inv: "built_inv qs (M0, mv)" unfolding f .
  then have n: "length (hedges M0) = ?n" unfolding built_inv_def by simp
  have lvp: "length ?vp = ?n" by (simp add: n)
  have res: "fst (createMeshHalfEdges qs singularVertices) =
             (if fill_new2old o2n [0..<?n] (replicate (length uniques) (NO_ID, NO_ID)) = None
              then - 1 else 0)"
    unfolding createMeshHalfEdges_def Let_def f prod.case n s [unfolded n]
    by (simp split: option.split)
  have rng: "\<forall>i \<in> set [0..<?n]. o2n ! i < length uniques \<and> i \<noteq> NO_ID"
  proof
    fix i assume "i \<in> set [0..<?n]"
    then have i: "i < ?n" by simp
    then have "i < length ?vp" unfolding lvp .
    from old2new_eq_iff(1) [OF s this this] have "o2n ! i < length uniques" .
    moreover from i assms(2) have "i \<noteq> NO_ID" by simp
    ultimately show "o2n ! i < length uniques \<and> i \<noteq> NO_ID" ..
  qed
  have eqv: "o2n ! i = o2n ! j \<longleftrightarrow> same_edge (hedge_side qs i) (hedge_side qs j)"
    if "i < ?n" "j < ?n" for i j
  proof -
    from that have l: "i < length ?vp" "j < length ?vp" unfolding lvp by simp_all
    from that have v: "?vp ! i = vPair (hedges M0) i" "?vp ! j = vPair (hedges M0) j"
      by (simp_all add: n)
    from built_vPair_eq [OF inv that]
    have "vPair (hedges M0) i = vPair (hedges M0) j
          \<longleftrightarrow> same_edge (hedge_side qs i) (hedge_side qs j)" by simp
    with old2new_eq_iff(2) [OF s l] show ?thesis unfolding v by simp
  qed
  have fail: "fill_new2old o2n [0..<?n] (replicate (length uniques) (NO_ID, NO_ID)) = None
              \<longleftrightarrow> (\<exists>s < length uniques. 2 < slot_count o2n [0..<?n] s)"
    by (rule fill_new2old_fresh [OF rng])
  have cnt: "slot_count o2n [0..<?n] (o2n ! i0) = quads_sharing qs (hedge_side qs i0)"
    if "i0 < ?n" for i0
  proof -
    have "filter (\<lambda>i. o2n ! i = o2n ! i0) [0..<?n]
          = filter (\<lambda>i. same_edge (hedge_side qs i) (hedge_side qs i0)) [0..<?n]"
      by (rule filter_cong [OF refl]) (use eqv that in simp)
    then show ?thesis unfolding slot_count_def hedge_side_count [OF assms(1), symmetric] by simp
  qed
  have "(\<exists>s < length uniques. 2 < slot_count o2n [0..<?n] s) \<longleftrightarrow> (\<exists>e. 2 < quads_sharing qs e)"
  proof
    assume "\<exists>s < length uniques. 2 < slot_count o2n [0..<?n] s"
    then obtain s where s2: "2 < slot_count o2n [0..<?n] s" by blast
    then have "filter (\<lambda>i. o2n ! i = s) [0..<?n] \<noteq> []" unfolding slot_count_def by auto
    then obtain i0 where "i0 \<in> set (filter (\<lambda>i. o2n ! i = s) [0..<?n])"
      by (meson hd_in_set)
    then have i0: "i0 < ?n" "o2n ! i0 = s" by simp_all
    from cnt [OF i0(1)] s2 have "2 < quads_sharing qs (hedge_side qs i0)" unfolding i0(2) by simp
    then show "\<exists>e. 2 < quads_sharing qs e" ..
  next
    assume "\<exists>e. 2 < quads_sharing qs e"
    then obtain e where e: "2 < quads_sharing qs e" ..
    then have "filter (\<lambda>q. has_edge q e) qs \<noteq> []" unfolding quads_sharing_def by auto
    then obtain q where "q \<in> set (filter (\<lambda>q. has_edge q e) qs)"
      by (meson hd_in_set)
    then have q: "q \<in> set qs" "has_edge q e" by simp_all
    from has_edge_hedge_side [OF q] obtain i0 where i0: "i0 < ?n" "same_edge (hedge_side qs i0) e"
      by blast
    from quads_sharing_cong [OF assms(1) i0(2)] e cnt [OF i0(1)]
    have "2 < slot_count o2n [0..<?n] (o2n ! i0)" by simp
    moreover from rng i0(1) have "o2n ! i0 < length uniques" by simp
    ultimately show "\<exists>s < length uniques. 2 < slot_count o2n [0..<?n] s" by blast
  qed
  with fail res show ?thesis by simp
qed

theorem createMeshHalfEdges_status_witness:
  "list_all proper_quad book3 \<and> 4 * length book3 < NO_ID \<and> 2 < quads_sharing book3 (1, 2) \<and>
   fst (createMeshHalfEdges book3 []) = - 1 \<and>
   list_all proper_quad strip2 \<and> 4 * length strip2 < NO_ID \<and>
   fst (createMeshHalfEdges strip2 [101]) = 0 \<and> \<not> (\<exists>e. 2 < quads_sharing strip2 e)"
proof -
  have p3: "\<forall>q \<in> set book3. proper_quad q"
    by (simp add: book3_def proper_quad_def upt_0_4)
  have n3: "4 * length book3 < NO_ID" by (simp add: book3_def NO_ID_def)
  have s3: "2 < quads_sharing book3 (1, 2)"
    by (simp add: book3_def quads_sharing_def has_edge_def same_edge_def quad_side_def upt_0_4)
  have p2: "\<forall>q \<in> set strip2. proper_quad q"
    by (simp add: strip2_def proper_quad_def upt_0_4)
  have n2: "4 * length strip2 < NO_ID" by (simp add: strip2_def NO_ID_def)
  have b2: "\<not> (\<exists>e. 2 < quads_sharing strip2 e)"
    by (simp add: strip2_def quads_sharing_def)
  from createMeshHalfEdges_status [OF p3 n3, of "[]"] s3
  have r3: "fst (createMeshHalfEdges book3 []) = - 1" by auto
  from createMeshHalfEdges_status [OF p2 n2, of "[101]"] b2
  have r2: "fst (createMeshHalfEdges strip2 [101]) = 0" by simp
  from p3 n3 s3 r3 p2 n2 b2 r2 show ?thesis by (simp add: list_all_iff)
qed

text \<open>
  C7. \<^verbatim>\<open>Gardener::setCavity\<close> on a non-empty cavity (at least one quad, at least
  one boundary half-edge) whose face loops close: it returns true, and
  \<^verbatim>\<open>cavityTargetNbOfSides\<close> is 3 for three faces, 4 for one or four faces, 5 for five
  faces and 0 otherwise.
\<close>

lemma sc_faces_Some:
  "\<forall>f \<in> set fs. face_loop M f \<noteq> None \<Longrightarrow> \<exists>st'. sc_faces M fs st = Some st'"
proof (induction fs arbitrary: st)
  case Nil
  then show ?case by simp
next
  case (Cons f fs)
  then obtain hs where hs: "face_loop M f = Some hs" by auto
  from Cons.prems have "\<forall>f \<in> set fs. face_loop M f \<noteq> None" by simp
  from Cons.IH [OF this, of "fold (sc_he M) hs st"] hs show ?case by simp
qed

lemma target_fold_sc_sing:
  "cavityTargetNbOfSides (fold sc_sing vs G) = cavityTargetNbOfSides G"
  by (induction vs arbitrary: G) (simp_all add: sc_sing_def)

theorem setCavity_target:
  assumes "finite (quads cav)" and "quads cav \<noteq> {}" and "hes cav \<noteq> []"
    and "\<forall>f \<in> quads cav. face_loop M f \<noteq> None"
  shows "\<exists>G'. setCavity M G cav = Returns (True, G') \<and>
           cavityTargetNbOfSides G' =
             (if card (quads cav) = 3 then 3
              else if card (quads cav) = 1 \<or> card (quads cav) = 4 then 4
              else if card (quads cav) = 5 then 5
              else 0)"
proof -
  from assms(1,2) have c: "card (quads cav) \<noteq> 0" by simp
  from assms(1,4) have "\<forall>f \<in> set (sorted_list_of_set (quads cav)). face_loop M f \<noteq> None"
    by simp
  then obtain st' where st: "sc_faces M (sorted_list_of_set (quads cav))
      (G\<lparr>valenceInCavity := replicate (length (valenceInCavity G)) 0,
         sings := {}, irregular := {}, singsBdr := {},
         cavityTargetNbOfSides := 0, lastNbIrregular := 0,
         lastCav := \<lparr>hes = [], side = [], quads = {}\<rparr>\<rparr>, []) = Some st'"
    using sc_faces_Some by blast
  show ?thesis
    using c assms(3) st
    by (simp add: setCavity_def Let_def target_fold_sc_sing target_sides_def)
qed

theorem setCavity_target_witness:
  "finite (quads strip_cavity) \<and> quads strip_cavity = {0} \<and> hes strip_cavity \<noteq> [] \<and>
   face_loop strip2_mesh 0 = Some [0, 1, 2, 3] \<and>
   (\<exists>G'. setCavity strip2_mesh strip_gardener0 strip_cavity = Returns (True, G') \<and>
          cavityTargetNbOfSides G' = 4)"
proof -
  have h1: "finite (quads strip_cavity)" and h2: "quads strip_cavity \<noteq> {}"
    and h3: "hes strip_cavity \<noteq> []" and q: "quads strip_cavity = {0}"
    by (simp_all add: strip_cavity_def)
  have fl: "face_loop strip2_mesh 0 = Some [0, 1, 2, 3]"
    by (simp add: face_loop_def face_hes.simps mesh_eval strip2_mesh_def)
  then have h4: "\<forall>f \<in> quads strip_cavity. face_loop strip2_mesh f \<noteq> None"
    by (simp add: q)
  from setCavity_target [OF h1 h2 h3 h4, of strip_gardener0] h1 h3 q fl
  show ?thesis by simp
qed

text \<open>
  C4. A call of \<^verbatim>\<open>growByFlip\<close> that returns false outside the "closing a hole"
  configuration leaves the cavity (\<^verbatim>\<open>hes\<close>, \<^verbatim>\<open>side\<close>, \<^verbatim>\<open>quads\<close>) as it was; a
  call that returns true has added the absorbed quad, the face of the half-edge opposite
  to \<^verbatim>\<open>hes[i]\<close>, to \<^verbatim>\<open>quads\<close> and reports it in \<^verbatim>\<open>info.nq\<close>.
\<close>

lemma flip_effect_bind:
  "(\<And>a. flip_effect cav nq s (f a)) \<Longrightarrow> flip_effect cav nq s (bind_exec x f)"
  by (cases x) (simp_all add: bind_exec_def flip_effect_def)

lemma flip_effect_if:
  "(c \<Longrightarrow> flip_effect cav nq s a) \<Longrightarrow> (\<not> c \<Longrightarrow> flip_effect cav nq s b) \<Longrightarrow>
   flip_effect cav nq s (if c then a else b)"
  by simp

lemma flip_effect_done: "fi_nq info = nq \<Longrightarrow> flip_effect cav nq s (flip_done cav info hs)"
  by (simp add: flip_effect_def flip_done_def)

lemma flip_effect_rejected: "flip_effect cav nq s (flip_rejected cav info)"
  by (simp add: flip_effect_def flip_rejected_def)

lemma flip_effect_m2v:
  "flip_effect cav (fi_nq info) s (flip_m2v M cav info r nv1 nv2 pos heNew e1 e2)"
  unfolding flip_m2v_def
  by (intro flip_effect_if flip_effect_bind flip_effect_done flip_effect_rejected) simp

lemma flip_effect_1v:
  "flip_effect cav (fi_nq info) s (flip_1v M cav info r nv nvIn hsNew)"
  unfolding flip_1v_def
  by (intro flip_effect_if flip_effect_bind flip_effect_done flip_effect_rejected) simp

lemma flip_effect_p2v:
  "flip_effect cav (fi_nq info) s (flip_p2v M cav info r i he0 he1 he2 he3)"
  unfolding flip_p2v_def
  by (intro flip_effect_if flip_effect_bind flip_effect_done flip_effect_rejected) simp

lemma flip_effect_close:
  "flip_effect cav (fi_nq info) False (flip_close M cav info r he0 he0_op he1_op he2_op he3_op)"
  unfolding flip_close_def Let_def
  by (intro flip_effect_if flip_effect_bind flip_effect_done)
     (simp_all add: flip_effect_def flip_rejected_def)

lemma growByFlip_effect:
  "flip_effect cav (h_face (hedges M ! opposite M (hes cav ! i))) (\<not> closing_hole M cav i)
     (growByFlip M cav i info r)"
proof (cases "i < length (hes cav) \<and> opposite M (hes cav ! i) \<noteq> NO_ID")
  case False
  then show ?thesis
    by (auto simp: growByFlip_def Let_def flip_effect_rejected)
next
  case True
  define info1 where
    "info1 = info\<lparr>fi_he := hes cav ! i, fi_nq := h_face (hedges M ! opposite M (hes cav ! i))\<rparr>"
  have nq: "fi_nq info1 = h_face (hedges M ! opposite M (hes cav ! i))"
    by (simp add: info1_def)
  note eff = flip_effect_m2v [of cav info1, unfolded nq] flip_effect_1v [of cav info1, unfolded nq]
    flip_effect_p2v [of cav info1, unfolded nq] flip_effect_close [of cav info1, unfolded nq]
    flip_effect_rejected
  from True show ?thesis
    unfolding growByFlip_def closing_hole_def Let_def info1_def [symmetric]
    by (simp add: eff)
qed

theorem growByFlip_rejection_keeps_state:
  assumes "growByFlip M cav i info r = Returns (ok, cav', info')"
  shows "(\<not> ok \<and> \<not> closing_hole M cav i \<longrightarrow> cav' = cav) \<and>
         (ok \<longrightarrow> quads cav' = insert (fi_nq info') (quads cav) \<and> side cav' = side cav \<and>
                 fi_nq info' = h_face (hedges M ! opposite M (hes cav ! i)))"
  using assms growByFlip_effect [of cav M i info r]
  by (simp add: flip_effect_def)

theorem growByFlip_rejection_keeps_state_witness:
  "growByFlip grid3_sing corner_cavity 3 no_info True =
     Returns (False, corner_cavity, \<lparr>fi_he = 6, fi_nq = 4, fi_nvs = no_nvs\<rparr>) \<and>
   \<not> closing_hole grid3_sing corner_cavity 3 \<and>
   growByFlip strip2_mesh strip_cavity 1 no_info True =
     Returns (True, \<lparr>hes = [0, 4, 5, 6, 2, 3], side = [0, 1, 2, 3], quads = {0, 1}\<rparr>,
              \<lparr>fi_he = 1, fi_nq = 1, fi_nvs = no_nvs\<rparr>) \<and>
   quads \<lparr>hes = [0, 4, 5, 6, 2, 3], side = [0, 1, 2, 3], quads = {0, 1}\<rparr>
     = insert 1 (quads strip_cavity)"
  using growByFlip_rejection_keeps_state [OF corner_flip_rejected]
        growByFlip_rejection_keeps_state [OF strip_flip]
        corner_flip_rejected corner_not_closing strip_flip
  by simp









text \<open>
  C3. A replacement found by \<^verbatim>\<open>remeshFewQuads\<close> (status 0) whose energy is not below
  the energy of the cavity it replaces is discarded, and the face and the adjacency map
  stay as they were, unless it is a duet; a duet is applied whatever the energies; so an
  applied replacement that is not a duet has a strictly smaller energy.
\<close>

theorem rejected_replacement_rolled_back:
  assumes "status = 0"
  shows "(\<not> is_duet vs bnd elts newElements \<and>
          irregularityEnergyOfCavity bnd ideal allowed newVertices newElements
            \<ge> irregularityEnergyOfCavity bnd ideal allowed inside elts
          \<longrightarrow> apply_replacement support vs bnd ideal allowed inside elts status newVertices newElements s = (False, s))
       \<and> (is_duet vs bnd elts newElements
          \<longrightarrow> fst (apply_replacement support vs bnd ideal allowed inside elts status newVertices newElements s))
       \<and> (fst (apply_replacement support vs bnd ideal allowed inside elts status newVertices newElements s)
            \<and> \<not> is_duet vs bnd elts newElements
          \<longrightarrow> irregularityEnergyOfCavity bnd ideal allowed newVertices newElements
                < irregularityEnergyOfCavity bnd ideal allowed inside elts)"
  using assms by (auto simp: apply_replacement_def Let_def)

lemmas energy_eval = irregularityEnergyOfCavity_def bnd_energy_def inside_energy_def qval_def
  is_duet_def SURFACE_def hexagon_def hexagon_ideal_def hexagon_allowed_def old3_def new2_def
  upt_rec Let_def

theorem rejected_replacement_rolled_back_witness:
  "\<not> is_duet SURFACE hexagon new2 old3 \<and>
   irregularityEnergyOfCavity hexagon hexagon_ideal hexagon_allowed [] new2 = 0 \<and>
   irregularityEnergyOfCavity hexagon hexagon_ideal hexagon_allowed [9] old3 = 4 \<and>
   apply_replacement (\<lambda>v. SURFACE) SURFACE hexagon hexagon_ideal hexagon_allowed [] new2 0 [9] old3
     face_new2 = (False, face_new2) \<and>
   fst (apply_replacement (\<lambda>v. SURFACE) SURFACE hexagon hexagon_ideal hexagon_allowed [9] old3 0 [] new2
     face_old3)"
proof -
  have d: "\<not> is_duet SURFACE hexagon new2 old3" "\<not> is_duet SURFACE hexagon old3 new2"
    by (simp_all add: is_duet_def hexagon_def)
  have e0: "irregularityEnergyOfCavity hexagon hexagon_ideal hexagon_allowed [] new2 = 0"
    by (simp add: energy_eval)
  have e4: "irregularityEnergyOfCavity hexagon hexagon_ideal hexagon_allowed [9] old3 = 4"
    by (simp add: energy_eval)
  have acc: "fst (apply_replacement (\<lambda>v. SURFACE) SURFACE hexagon hexagon_ideal hexagon_allowed [9] old3 0 [] new2
     face_old3)"
    using d e0 e4 by (simp add: apply_replacement_def Let_def)
  from rejected_replacement_rolled_back [where status = 0 and vs = SURFACE and bnd = hexagon
      and elts = new2 and newElements = old3 and ideal = hexagon_ideal and allowed = hexagon_allowed
      and inside = "[]" and newVertices = "[9]" and support = "\<lambda>v. SURFACE" and s = face_new2]
    rejected_replacement_rolled_back [where status = 0 and vs = SURFACE and bnd = hexagon
      and elts = old3 and newElements = new2 and ideal = hexagon_ideal and allowed = hexagon_allowed
      and inside = "[9]" and newVertices = "[]" and support = "\<lambda>v. SURFACE" and s = face_old3]
    d e0 e4 acc
  show ?thesis by simp
qed

lemma smooth_vertex_other:
  "j \<noteq> i \<Longrightarrow>
   sw_points (smooth_vertex ks len l avg u i st) ! j = sw_points st ! j \<and>
   sw_running (smooth_vertex ks len l avg u i st) ! j = sw_running st ! j"
  by (auto simp: smooth_vertex_def Let_def split: option.splits)

lemma smooth_vertex_length [simp]:
  "length (sw_running (smooth_vertex ks len l avg u i st)) = length (sw_running st)"
  by (auto simp: smooth_vertex_def Let_def split: option.splits)

lemma smooth_vertex_locked:
  "\<not> sw_running st ! j \<Longrightarrow> j < length (sw_running st) \<Longrightarrow>
   sw_points (smooth_vertex ks len l avg u i st) ! j = sw_points st ! j \<and>
   \<not> sw_running (smooth_vertex ks len l avg u i st) ! j"
  by (cases "j = i") (auto simp: smooth_vertex_def Let_def nth_list_update split: option.splits)

lemma fold_smooth_vertex_locked:
  "\<not> sw_running st ! j \<Longrightarrow> j < length (sw_running st) \<Longrightarrow>
   sw_points (fold (smooth_vertex ks len l avg u) is st) ! j = sw_points st ! j \<and>
   \<not> sw_running (fold (smooth_vertex ks len l avg u) is st) ! j \<and>
   length (sw_running (fold (smooth_vertex ks len l avg u) is st)) = length (sw_running st)"
proof (induction "is" arbitrary: st)
  case Nil
  then show ?case by simp
next
  case (Cons i "is")
  from smooth_vertex_locked [OF Cons.prems, of ks len l avg u i]
  have 1: "sw_points (smooth_vertex ks len l avg u i st) ! j = sw_points st ! j"
    and 2: "\<not> sw_running (smooth_vertex ks len l avg u i st) ! j" by simp_all
  from Cons.prems(2) have 3: "j < length (sw_running (smooth_vertex ks len l avg u i st))" by simp
  from Cons.IH [OF 2 3] 1 show ?case by simp
qed

lemma sweep_locked:
  assumes "\<not> run ! j" and "j < length run"
  shows "sw_points (smooth_sweep ks len l avg u pts run) ! j = pts ! j"
    and "\<not> sw_running (smooth_sweep ks len l avg u pts run) ! j"
    and "length (sw_running (smooth_sweep ks len l avg u pts run)) = length run"
  using fold_smooth_vertex_locked [of "\<lparr>sw_points = pts, sw_running = run, sw_sum_dx = 0, sw_max_dx = 0, sw_count = 0\<rparr>" j
      ks len l avg u "[0..<length run]"] assms
  by (simp_all add: smooth_sweep_def)

lemma loop_locked:
  "\<not> run ! j \<Longrightarrow> j < length run \<Longrightarrow>
   fst (optimization_loop ks len g l avg proj iterMax iter pts run s0) ! j = pts ! j"
proof (induction ks len g l avg proj iterMax iter pts run s0 rule: optimization_loop.induct)
  case (1 ks len g l avg proj iterMax iter pts run s0)
  let ?st = "smooth_sweep ks len l avg (proj \<and> iter < iterMax - 1) pts run"
  note sl = sweep_locked [OF "1.prems", of ks len l avg "proj \<and> iter < iterMax - 1" pts]
  show ?case
  proof (cases "iter < iterMax")
    case False
    then show ?thesis by (subst optimization_loop.simps) simp
  next
    case True
    show ?thesis
    proof (cases "iter = 0")
      case z: True
      from "1.IH"(1) [OF True refl refl z] sl "1.prems"
      have "fst (optimization_loop ks len g l avg proj iterMax (iter + 1)
                  (sw_points ?st) (sw_running ?st) (sw_sum_dx ?st)) ! j = pts ! j"
        by simp
      with True z show ?thesis by (subst optimization_loop.simps) (simp add: Let_def)
    next
      case nz: False
      show ?thesis
      proof (cases "sw_sum_dx ?st < g * s0 \<or> sw_count ?st = 0")
        case stop: True
        with True nz sl show ?thesis
          by (subst optimization_loop.simps) (auto simp: Let_def)
      next
        case go: False
        then have a: "\<not> sw_sum_dx ?st < g * s0" and b: "sw_count ?st \<noteq> 0" by auto
        from "1.IH"(2) [OF True refl refl nz a b] sl "1.prems"
        have "fst (optimization_loop ks len g l avg proj iterMax (iter + 1)
                  (sw_points ?st) (sw_running ?st) s0) ! j = pts ! j"
          by simp
        with True nz a b show ?thesis by (subst optimization_loop.simps) (simp add: Let_def)
      qed
    qed
  qed
qed


lemma sweep_locks_slow_vertex:
  assumes i: "i < length run"
    and st: "st = fold (smooth_vertex ks len l avg u) [0..<i]
               \<lparr>sw_points = pts, sw_running = run, sw_sum_dx = 0, sw_max_dx = 0, sw_count = 0\<rparr>"
    and r: "sw_running st ! i" and k: "ks u i (sw_points st) = Some newPos"
    and d: "len (sw_points st ! i) newPos < l * avg ! i"
  shows "\<not> sw_running (smooth_sweep ks len l avg u pts run) ! i"
proof -
  have len_st: "length (sw_running (fold (smooth_vertex ks len l avg u) js s)) = length (sw_running s)" for js s
    by (induction js arbitrary: s) simp_all
  from i have split: "[0..<length run] = [0..<i] @ i # [Suc i..<length run]"
    by (metis le_add1 less_imp_add_positive upt_add_eq_append upt_conv_Cons plus_nat.add_0)
  let ?s1 = "smooth_vertex ks len l avg u i st"
  from i st have li: "i < length (sw_running st)" by (simp add: len_st)
  with r k d have off: "\<not> sw_running ?s1 ! i"
    by (simp add: smooth_vertex_def Let_def)
  from li have "i < length (sw_running ?s1)" by simp
  from fold_smooth_vertex_locked [OF off this, of ks len l avg u "[Suc i..<length run]"]
  have "\<not> sw_running (fold (smooth_vertex ks len l avg u) [Suc i..<length run] ?s1) ! i"
    by simp
  then show ?thesis
    by (simp add: smooth_sweep_def split st)
qed

lemma loop_from:
  fixes sq :: "nat \<Rightarrow> 'p sweep"
  assumes sq: "sq = sweep_seq ks len l avg proj iterMax pts0 run0"
    and it: "iter \<le> iterMax"
    and st: "pts = sw_points (sq iter)" "run = sw_running (sq iter)"
    and s0: "0 < iter \<longrightarrow> s0 = sw_sum_dx (sq 1)"
    and before: "\<forall>k. k < iter \<longrightarrow> \<not> stops_after g sq k"
  shows "\<exists>n. optimization_loop ks len g l avg proj iterMax iter pts run s0
               = (sw_points (sq n), sw_running (sq n), n) \<and> iter \<le> n \<and> executed iterMax g sq n"
  using it st s0 before
proof (induction "iterMax - iter" arbitrary: iter pts run s0)
  case 0
  then have e: "iter = iterMax" by simp
  have "optimization_loop ks len g l avg proj iterMax iter pts run s0 = (pts, run, iter)"
    using e by (subst optimization_loop.simps) simp
  moreover have "executed iterMax g sq iter"
    using "0.prems"(5) e by (simp add: executed_def)
  ultimately show ?case using "0.prems"(2,3) by auto
next
  case (Suc d)
  from Suc.hyps(2) have lt: "iter < iterMax" by simp
  let ?st = "smooth_sweep ks len l avg (proj \<and> iter < iterMax - 1) pts run"
  have step: "sq (Suc iter) = ?st"
    unfolding sq sweep_seq.simps Suc.prems(2,3) [unfolded sq] ..
  have d: "d = iterMax - Suc iter" using Suc.hyps(2) by simp
  have le: "Suc iter \<le> iterMax" using lt by simp
  show ?case
  proof (cases "iter = 0")
    case True
    have eq: "optimization_loop ks len g l avg proj iterMax iter pts run s0
              = optimization_loop ks len g l avg proj iterMax (Suc iter)
                  (sw_points ?st) (sw_running ?st) (sw_sum_dx ?st)"
      using lt True by (subst optimization_loop.simps) (simp add: Let_def)
    have s1: "0 < Suc iter \<longrightarrow> sw_sum_dx ?st = sw_sum_dx (sq 1)"
      using True step by simp
    have b1: "\<forall>k. k < Suc iter \<longrightarrow> \<not> stops_after g sq k"
      using True by (simp add: stops_after_def)
    from Suc.hyps(1) [OF d le _ _ s1 b1, of "sw_points ?st" "sw_running ?st"] step
    obtain n where "optimization_loop ks len g l avg proj iterMax (Suc iter)
                  (sw_points ?st) (sw_running ?st) (sw_sum_dx ?st)
               = (sw_points (sq n), sw_running (sq n), n)" "Suc iter \<le> n" "executed iterMax g sq n"
      by auto
    with eq show ?thesis by auto
  next
    case False
    with Suc.prems(4) have s0: "s0 = sw_sum_dx (sq 1)" by simp
    show ?thesis
    proof (cases "sw_sum_dx ?st < g * s0 \<or> sw_count ?st = 0")
      case True
      have eq: "optimization_loop ks len g l avg proj iterMax iter pts run s0
                = (sw_points ?st, sw_running ?st, Suc iter)"
        using lt False True by (subst optimization_loop.simps) (auto simp: Let_def)
      from True False have "stops_after g sq iter"
        unfolding stops_after_def step s0 by simp
      with Suc.prems(5) le have "executed iterMax g sq (Suc iter)"
        by (simp add: executed_def)
      with eq step show ?thesis by auto
    next
      case go: False
      have eq: "optimization_loop ks len g l avg proj iterMax iter pts run s0
              = optimization_loop ks len g l avg proj iterMax (Suc iter)
                  (sw_points ?st) (sw_running ?st) s0"
        using lt False go by (subst optimization_loop.simps) (simp add: Let_def)
      have s1: "0 < Suc iter \<longrightarrow> s0 = sw_sum_dx (sq 1)" using s0 by simp
      from go have ns: "\<not> stops_after g sq iter"
        unfolding stops_after_def step s0 by simp
      have b1: "\<forall>k. k < Suc iter \<longrightarrow> \<not> stops_after g sq k"
        using Suc.prems(5) ns by (auto simp: less_Suc_eq)
      from Suc.hyps(1) [OF d le _ _ s1 b1, of "sw_points ?st" "sw_running ?st"] step
      obtain n where "optimization_loop ks len g l avg proj iterMax (Suc iter)
                  (sw_points ?st) (sw_running ?st) s0
               = (sw_points (sq n), sw_running (sq n), n)" "Suc iter \<le> n" "executed iterMax g sq n"
        by auto
      with eq show ?thesis by auto
    qed
  qed
qed

lemma loop_executed:
  "\<exists>n. optimization_loop ks len g l avg proj iterMax 0 pts run s0
          = (sw_points (sweep_seq ks len l avg proj iterMax pts run n),
             sw_running (sweep_seq ks len l avg proj iterMax pts run n), n)
        \<and> executed iterMax g (sweep_seq ks len l avg proj iterMax pts run) n"
  using loop_from [OF refl, of 0 iterMax pts ks len l avg proj pts run run s0 g]
  by auto

lemma executed_unique:
  assumes "executed iterMax g sq n" and "executed iterMax g sq m"
  shows "n = m"
proof (rule ccontr)
  assume ne: "n \<noteq> m"
  have aux: False if a: "executed iterMax g sq a" and b: "executed iterMax g sq b" and lt: "a < b" for a b
  proof -
    from b have "b \<le> iterMax" by (simp add: executed_def)
    with lt have "a < iterMax" by simp
    with a have s: "0 < a" "stops_after g sq (a - 1)" by (simp_all add: executed_def)
    from s(1) lt have "Suc (a - 1) < b" by simp
    with b have "\<not> stops_after g sq (a - 1)" unfolding executed_def by blast
    with s(2) show False by simp
  qed
  from ne have "n < m \<or> m < n" by auto
  with aux assms show False by blast
qed

lemma executed_first:
  assumes "executed iterMax g sq n" and "1 < iterMax"
  shows "1 < n"
proof (rule ccontr)
  assume "\<not> 1 < n"
  then have n: "n \<le> 1" by simp
  with assms(2) have "n < iterMax" by simp
  with assms(1) have "0 < n" "stops_after g sq (n - 1)" by (simp_all add: executed_def)
  with n show False by (simp add: stops_after_def)
qed

lemma shifting_sweep:
  "smooth_sweep shifting gap 0 [1] u [x] [True]
     = \<lparr>sw_points = [x + 1], sw_running = [True], sw_sum_dx = 1, sw_max_dx = 1, sw_count = 1\<rparr>"
  by (simp add: smooth_sweep_def smooth_vertex_def shifting_def gap_def Let_def)

lemma shifting_runs:
  "iter \<le> n \<Longrightarrow> (0 < iter \<longrightarrow> s0 = 1) \<Longrightarrow>
   optimization_loop shifting gap (1 / 2) 0 [1] False n iter [real iter] [True] s0 = ([real n], [True], n)"
proof (induction "n - iter" arbitrary: iter s0)
  case 0
  then have "iter = n" by simp
  then show ?case by (subst optimization_loop.simps) simp
next
  case (Suc d)
  then have lt: "iter < n" by simp
  have d: "d = n - Suc iter" using Suc.hyps(2) by simp
  have le: "Suc iter \<le> n" using lt by simp
  have r: "real iter + 1 = real (Suc iter)" by simp
  show ?case
  proof (cases "iter = 0")
    case True
    from Suc.hyps(1) [OF d le, of 1] have
      "optimization_loop shifting gap (1 / 2) 0 [1] False n (Suc iter) [real (Suc iter)] [True] 1
         = ([real n], [True], n)" by simp
    with lt True show ?thesis
      by (subst optimization_loop.simps) (simp add: Let_def shifting_sweep)
  next
    case False
    with Suc.prems(2) have s0: "s0 = 1" by simp
    from Suc.hyps(1) [OF d le, of 1] have
      "optimization_loop shifting gap (1 / 2) 0 [1] False n (Suc iter) [real (Suc iter)] [True] 1
         = ([real n], [True], n)" by simp
    with lt False s0 show ?thesis
      by (subst optimization_loop.simps) (simp add: Let_def shifting_sweep r del: of_nat_Suc)
  qed
qed

text \<open>
  C8, as amended. (1) A vertex that is locked is not moved by the rest of the loop.
  (2) In a sweep, a running vertex that \<^verbatim>\<open>kernelSmoothing\<close> moves by less than
  \<^verbatim>\<open>local_dx_reduction\<close> times its local average size is locked. (3) After an
  iteration other than the first, the loop stops as soon as the total displacement of
  the iteration is below \<^verbatim>\<open>global_dx_reduction\<close> times the total of the first
  iteration. (4) The loop executes \<open>n\<close> iterations and returns the points and the
  flags of the \<open>n\<close>-th sweep, where \<open>n\<close> is \<^verbatim>\<open>iterMaxOuterLoop\<close> or the number
  of the first iteration after which the loop stops: an iteration other than the first
  whose total displacement is below \<^verbatim>\<open>global_dx_reduction\<close> times the total of the
  first, or that leaves no vertex unlocked. (5) This number is unique: nothing else, and
  no clock, stops the loop. (6) The first iteration never stops it.
\<close>

theorem smoothing_lock_and_stop:
  "(j < length run \<and> \<not> run ! j \<longrightarrow>
      fst (optimization_loop ks len g l avg proj iterMax iter pts run s0) ! j = pts ! j)
   \<and> (i < length run \<and>
       sw_running (fold (smooth_vertex ks len l avg u) [0..<i]
          \<lparr>sw_points = pts, sw_running = run, sw_sum_dx = 0, sw_max_dx = 0, sw_count = 0\<rparr>) ! i \<and>
       ks u i (sw_points (fold (smooth_vertex ks len l avg u) [0..<i]
          \<lparr>sw_points = pts, sw_running = run, sw_sum_dx = 0, sw_max_dx = 0, sw_count = 0\<rparr>)) = Some newPos \<and>
       len (sw_points (fold (smooth_vertex ks len l avg u) [0..<i]
          \<lparr>sw_points = pts, sw_running = run, sw_sum_dx = 0, sw_max_dx = 0, sw_count = 0\<rparr>) ! i) newPos
         < l * avg ! i
       \<longrightarrow> \<not> sw_running (smooth_sweep ks len l avg u pts run) ! i)
   \<and> (0 < iter \<and> iter < iterMax \<and>
       sw_sum_dx (smooth_sweep ks len l avg (proj \<and> iter < iterMax - 1) pts run) < g * s0
       \<longrightarrow> optimization_loop ks len g l avg proj iterMax iter pts run s0 =
             (sw_points (smooth_sweep ks len l avg (proj \<and> iter < iterMax - 1) pts run),
              sw_running (smooth_sweep ks len l avg (proj \<and> iter < iterMax - 1) pts run),
              iter + 1))
   \<and> (\<exists>n. optimization_loop ks len g l avg proj iterMax 0 pts run s0
              = (sw_points (sweep_seq ks len l avg proj iterMax pts run n),
                 sw_running (sweep_seq ks len l avg proj iterMax pts run n), n)
            \<and> executed iterMax g (sweep_seq ks len l avg proj iterMax pts run) n)
   \<and> (executed iterMax g (sweep_seq ks len l avg proj iterMax pts run) n \<and>
       executed iterMax g (sweep_seq ks len l avg proj iterMax pts run) m \<longrightarrow> n = m)
   \<and> (executed iterMax g (sweep_seq ks len l avg proj iterMax pts run) n \<and> 1 < iterMax \<longrightarrow> 1 < n)"
proof (intro conjI impI)
  assume "j < length run \<and> \<not> run ! j"
  then show "fst (optimization_loop ks len g l avg proj iterMax iter pts run s0) ! j = pts ! j"
    using loop_locked by blast
next
  assume a: "i < length run \<and>
       sw_running (fold (smooth_vertex ks len l avg u) [0..<i]
          \<lparr>sw_points = pts, sw_running = run, sw_sum_dx = 0, sw_max_dx = 0, sw_count = 0\<rparr>) ! i \<and>
       ks u i (sw_points (fold (smooth_vertex ks len l avg u) [0..<i]
          \<lparr>sw_points = pts, sw_running = run, sw_sum_dx = 0, sw_max_dx = 0, sw_count = 0\<rparr>)) = Some newPos \<and>
       len (sw_points (fold (smooth_vertex ks len l avg u) [0..<i]
          \<lparr>sw_points = pts, sw_running = run, sw_sum_dx = 0, sw_max_dx = 0, sw_count = 0\<rparr>) ! i) newPos
         < l * avg ! i"
  show "\<not> sw_running (smooth_sweep ks len l avg u pts run) ! i"
    by (rule sweep_locks_slow_vertex [OF _ refl]) (use a in blast)+
next
  assume "0 < iter \<and> iter < iterMax \<and>
       sw_sum_dx (smooth_sweep ks len l avg (proj \<and> iter < iterMax - 1) pts run) < g * s0"
  then show "optimization_loop ks len g l avg proj iterMax iter pts run s0 =
             (sw_points (smooth_sweep ks len l avg (proj \<and> iter < iterMax - 1) pts run),
              sw_running (smooth_sweep ks len l avg (proj \<and> iter < iterMax - 1) pts run),
              iter + 1)"
    by (subst optimization_loop.simps) (simp add: Let_def)
next
  show "\<exists>n. optimization_loop ks len g l avg proj iterMax 0 pts run s0
              = (sw_points (sweep_seq ks len l avg proj iterMax pts run n),
                 sw_running (sweep_seq ks len l avg proj iterMax pts run n), n)
            \<and> executed iterMax g (sweep_seq ks len l avg proj iterMax pts run) n"
    by (rule loop_executed)
next
  assume "executed iterMax g (sweep_seq ks len l avg proj iterMax pts run) n \<and>
          executed iterMax g (sweep_seq ks len l avg proj iterMax pts run) m"
  then show "n = m" using executed_unique by blast
next
  assume "executed iterMax g (sweep_seq ks len l avg proj iterMax pts run) n \<and> 1 < iterMax"
  then show "1 < n" using executed_first by blast
qed

lemmas smooth_eval = optimization_loop.simps smooth_sweep_def smooth_vertex_def halving_def
  shifting_def gap_def Let_def

theorem smoothing_lock_and_stop_witness:
  "fst (optimization_loop halving gap (1 / 2) (1 / 2) [1, 1] False 5 0 [8, 5] [True, False] 0) ! 1 = 5
   \<and> \<not> sw_running (smooth_sweep halving gap (1 / 2) [1] False [1 / 4] [True]) ! 0
   \<and> sw_sum_dx (smooth_sweep halving gap (1 / 2) [1] False [2] [True]) < 1 / 2 * 4
   \<and> optimization_loop halving gap (1 / 2) (1 / 2) [1] False 5 2 [2] [True] 4 = ([1], [True], 3)
   \<and> optimization_loop halving gap (1 / 2) (1 / 2) [1] False 5 0 [8] [True] 0 = ([1], [True], 3)
   \<and> executed 5 (1 / 2) (sweep_seq halving gap (1 / 2) [1] False 5 [8] [True]) 3
   \<and> stops_after (1 / 2) (sweep_seq halving gap (1 / 2) [1] False 5 [8] [True]) 2
   \<and> \<not> stops_after (1 / 2) (sweep_seq halving gap (1 / 2) [1] False 5 [8] [True]) 0"
proof -
  have 1: "fst (optimization_loop halving gap (1 / 2) (1 / 2) [1, 1] False 5 0 [8, 5] [True, False] 0) ! 1 = 5"
    using smoothing_lock_and_stop [of 1 "[True, False]" halving gap "1 / 2" "1 / 2" "[1, 1]" False 5 0 "[8, 5]" 0]
    by simp
  have 2: "\<not> sw_running (smooth_sweep halving gap (1 / 2) [1] False [1 / 4] [True]) ! 0"
    using smoothing_lock_and_stop [of _ "[True]" halving gap _ "1 / 2" "[1]" _ _ _ "[1 / 4]" _ 0 False "1 / 8"]
    by (simp add: halving_def gap_def)
  have 3: "sw_sum_dx (smooth_sweep halving gap (1 / 2) [1] False [2] [True]) < 1 / 2 * 4"
    by (simp add: smooth_eval)
  have 4: "optimization_loop halving gap (1 / 2) (1 / 2) [1] False 5 2 [2] [True] 4 = ([1], [True], 3)"
    using smoothing_lock_and_stop [of _ "[True]" halving gap "1 / 2" "1 / 2" "[1]" False 5 2 "[2]" 4] 3
    by (simp add: smooth_eval)
  have 5: "optimization_loop halving gap (1 / 2) (1 / 2) [1] False 5 0 [8] [True] 0 = ([1], [True], 3)"
    by (simp add: smooth_eval)
  from smoothing_lock_and_stop [of _ "[True]" halving gap "1 / 2" "1 / 2" "[1]" False 5 _ "[8]" 0]
  obtain n where n: "optimization_loop halving gap (1 / 2) (1 / 2) [1] False 5 0 [8] [True] 0
              = (sw_points (sweep_seq halving gap (1 / 2) [1] False 5 [8] [True] n),
                 sw_running (sweep_seq halving gap (1 / 2) [1] False 5 [8] [True] n), n)"
    and e: "executed 5 (1 / 2) (sweep_seq halving gap (1 / 2) [1] False 5 [8] [True]) n"
    by blast
  from n 5 have "n = 3" by simp
  with e have 6: "executed 5 (1 / 2) (sweep_seq halving gap (1 / 2) [1] False 5 [8] [True]) 3" by simp
  then have 7: "stops_after (1 / 2) (sweep_seq halving gap (1 / 2) [1] False 5 [8] [True]) 2"
    by (simp add: executed_def)
  have 8: "\<not> stops_after (1 / 2) (sweep_seq halving gap (1 / 2) [1] False 5 [8] [True]) 0"
    by (simp add: stops_after_def)
  from 1 2 3 4 5 6 7 8 show ?thesis by blast
qed

text \<open>
  C8, as stated, fails at its last clause: no wall-clock timeout stops the loop. The
  function takes no timeout and reads no clock, and a run in which the vertex keeps
  moving executes every one of its \<open>n\<close> iterations, however large \<open>n\<close> is.
\<close>

theorem no_timeout_stops_the_loop:
  "\<forall>n. optimization_loop shifting gap (1 / 2) 0 [1] False n 0 [0] [True] 0 = ([real n], [True], n)"
  using shifting_runs [of 0 _ 0] by simp
end
